theory Spec2Isabelle
  imports Main "HOL-Library.Word"
begin

section \<open>Errors and Python integer primitives\<close>

text \<open>
  The exceptions the sources can raise.  A function that can raise returns
  \<open>error + 'a\<close>, with \<open>Inl\<close> for the exception.
\<close>

datatype error = ZeroDivisionError | ValueError | TypeError | OverflowError | IndexError

type_synonym byte = "8 word"
type_synonym bytes = "byte list"

text \<open>
  \<^verbatim>\<open>pow(a, -1, m)\<close>: the inverse of \<open>a\<close> modulo \<open>m\<close>, with the sign of \<open>m\<close>;
  \<^verbatim>\<open>ValueError\<close> when \<open>m = 0\<close> or when \<open>a\<close> has no inverse.
\<close>

definition py_pow_inv :: "int \<Rightarrow> int \<Rightarrow> error + int" where
  "py_pow_inv a m =
     (if m = 0 then Inl ValueError
      else case find (\<lambda>x. (a * x - 1) mod \<bar>m\<bar> = 0) [0..\<bar>m\<bar> - 1] of
             None \<Rightarrow> Inl ValueError
           | Some x \<Rightarrow> Inr (x mod m))"

text \<open>\<^verbatim>\<open>int.bit_length()\<close>: the number of bits of the absolute value.\<close>

fun bitlen :: "nat \<Rightarrow> nat" where
  "bitlen k = (if k = 0 then 0 else Suc (bitlen (k div 2)))"

declare bitlen.simps [simp del]

definition bit_length :: "int \<Rightarrow> nat" where
  "bit_length i = bitlen (nat \<bar>i\<bar>)"

text \<open>\<^verbatim>\<open>int.from_bytes(b, 'big')\<close> and \<^verbatim>\<open>x.to_bytes(l, 'big')\<close>.\<close>

definition from_bytes :: "bytes \<Rightarrow> int" where
  "from_bytes bs = foldl (\<lambda>acc w. acc * 256 + uint w) 0 bs"

fun be_digits :: "int \<Rightarrow> nat \<Rightarrow> bytes" where
  "be_digits i 0 = []"
| "be_digits i (Suc l) = be_digits (i div 256) l @ [word_of_int (i mod 256)]"

definition to_bytes :: "int \<Rightarrow> nat \<Rightarrow> error + bytes" where
  "to_bytes i l = (if i < 0 \<or> 256 ^ l \<le> i then Inl OverflowError else Inr (be_digits i l))"

section \<open>field.py: the prime field\<close>

text \<open>
  The methods of \<^verbatim>\<open>PrimeField\<close>, with the modulus as first argument.  Python's
  \<^verbatim>\<open>%\<close> takes the sign of the divisor, as \<open>mod\<close> on \<open>int\<close> does.  With modulus
  \<open>0\<close> every method raises in Python; the callers below test for it where the first
  field operation is reached.
\<close>

definition F_normalize :: "int \<Rightarrow> int \<Rightarrow> int" where
  "F_normalize q i = i mod q"

definition F_add :: "int \<Rightarrow> int \<Rightarrow> int \<Rightarrow> int" where
  "F_add q i j = (i + j) mod q"

definition F_sub :: "int \<Rightarrow> int \<Rightarrow> int \<Rightarrow> int" where
  "F_sub q i j = (i - j) mod q"

definition F_mul :: "int \<Rightarrow> int \<Rightarrow> int \<Rightarrow> int" where
  "F_mul q i j = (i * j) mod q"

definition F_neg :: "int \<Rightarrow> int \<Rightarrow> int" where
  "F_neg q i = (- i) mod q"

definition F_pow :: "int \<Rightarrow> int \<Rightarrow> nat \<Rightarrow> int" where
  "F_pow q i e = (i ^ e) mod q"

text \<open>
  \<^verbatim>\<open>inv\<close> raises on a multiple of the modulus and otherwise is \<^verbatim>\<open>pow(a, p - 2, p)\<close>;
  for a modulus below \<open>2\<close> the exponent is negative and Python inverts first.
\<close>

definition F_inv :: "int \<Rightarrow> int \<Rightarrow> error + int" where
  "F_inv q i =
     (if q = 0 then Inl ZeroDivisionError
      else if i mod q = 0 then Inl ZeroDivisionError
      else if 2 \<le> q then Inr ((i ^ nat (q - 2)) mod q)
      else case py_pow_inv i q of
             Inl e \<Rightarrow> Inl e
           | Inr j \<Rightarrow> Inr ((j ^ nat (2 - q)) mod q))"

definition F_div :: "int \<Rightarrow> int \<Rightarrow> int \<Rightarrow> error + int" where
  "F_div q i j = (case F_inv q j of Inl e \<Rightarrow> Inl e | Inr k \<Rightarrow> Inr (F_mul q i k))"

section \<open>curve.py: curves and points\<close>

record Curve =
  cv_name :: string
  cv_p :: int
  cv_a :: int
  cv_b :: int
  cv_Gx :: int
  cv_Gy :: int
  cv_n :: int
  cv_h :: int

text \<open>
  A point carries its curve and two optional coordinates; the point at infinity has
  neither.  The source compares curves by object identity; the model compares the
  descriptors.
\<close>

record Point =
  pt_curve :: Curve
  pt_x :: "int option"
  pt_y :: "int option"

definition is_infinity :: "Point \<Rightarrow> bool" where
  "is_infinity P = (pt_x P = None \<and> pt_y P = None)"

definition infinity :: "Curve \<Rightarrow> Point" where
  "infinity c = \<lparr>pt_curve = c, pt_x = None, pt_y = None\<rparr>"

text \<open>
  The constructor with its \<^verbatim>\<open>__post_init__\<close>: coordinates are reduced and the curve
  equation is checked; a point with exactly one coordinate fails on \<^verbatim>\<open>None % p\<close>.
\<close>

definition mk_Point :: "Curve \<Rightarrow> int option \<Rightarrow> int option \<Rightarrow> error + Point" where
  "mk_Point c xo yo =
     (case (xo, yo) of
        (None, None) \<Rightarrow> Inr \<lparr>pt_curve = c, pt_x = None, pt_y = None\<rparr>
      | (Some x0, Some y0) \<Rightarrow>
          if cv_p c = 0 then Inl ZeroDivisionError
          else
            let x = x0 mod cv_p c; y = y0 mod cv_p c in
            if F_pow (cv_p c) y 2 \<noteq> (F_pow (cv_p c) x 3 + F_mul (cv_p c) (cv_a c) x + cv_b c) mod cv_p c
            then Inl ValueError
            else Inr \<lparr>pt_curve = c, pt_x = Some x, pt_y = Some y\<rparr>
      | _ \<Rightarrow> Inl TypeError)"

definition neg :: "Point \<Rightarrow> error + Point" where
  "neg P =
     (if is_infinity P then Inr P
      else case pt_y P of
             None \<Rightarrow> Inl TypeError
           | Some y \<Rightarrow>
               if cv_p (pt_curve P) = 0 then Inl ZeroDivisionError
               else mk_Point (pt_curve P) (pt_x P) (Some (F_neg (cv_p (pt_curve P)) y)))"

text \<open>
  \<^verbatim>\<open>__add__\<close>, in the order of the source: curve mismatch, identity, the case that
  returns infinity, then the slope of the tangent or of the chord.
\<close>

definition add :: "Point \<Rightarrow> Point \<Rightarrow> error + Point" where
  "add P Q =
     (if pt_curve P \<noteq> pt_curve Q then Inl TypeError
      else if is_infinity P then Inr Q
      else if is_infinity Q then Inr P
      else case (pt_x P, pt_y P, pt_x Q, pt_y Q) of
        (Some x1, Some y1, Some x2, Some y2) \<Rightarrow>
          let c = pt_curve P; q = cv_p c in
          if x1 = x2 \<and> (y1 \<noteq> y2 \<or> y1 = 0) then Inr (infinity c)
          else if q = 0 then Inl (if x1 = x2 \<and> y1 = y2 then ValueError else ZeroDivisionError)
          else
            (case (if x1 = x2 \<and> y1 = y2
                   then F_div q (F_add q (F_mul q 3 (F_pow q x1 2)) (cv_a c)) (F_mul q 2 y1)
                   else F_div q (F_sub q y2 y1) (F_sub q x2 x1)) of
               Inl e \<Rightarrow> Inl e
             | Inr s \<Rightarrow>
                 let x3 = F_sub q (F_sub q (F_pow q s 2) x1) x2;
                     y3 = F_sub q (F_mul q s (F_sub q x1 x3)) y1
                 in mk_Point c (Some x3) (Some y3))
      | _ \<Rightarrow> Inl TypeError)"

definition double :: "Point \<Rightarrow> error + Point" where
  "double P = add P P"

definition G :: "Curve \<Rightarrow> error + Point" where
  "G c = mk_Point c (Some (cv_Gx c)) (Some (cv_Gy c))"

subsection \<open>Double-and-add\<close>

text \<open>The \<^verbatim>\<open>while k:\<close> loop of \<^verbatim>\<open>scalar_mult\<close>, entered with \<open>k > 0\<close>.\<close>

function scalar_loop :: "int \<Rightarrow> Point \<Rightarrow> Point \<Rightarrow> error + Point" where
  "scalar_loop k Q base =
     (if k \<le> 0 then Inr Q
      else case (if odd k then add Q base else Inr Q) of
             Inl e \<Rightarrow> Inl e
           | Inr Q' \<Rightarrow>
               (case double base of
                  Inl e \<Rightarrow> Inl e
                | Inr base' \<Rightarrow> scalar_loop (k div 2) Q' base'))"
  by pat_completeness auto
termination
  by (relation "measure (\<lambda>(k, Q, base). nat k)") auto

declare scalar_loop.simps [simp del]

function scalar_mult :: "int \<Rightarrow> Point \<Rightarrow> error + Point" where
  "scalar_mult k P =
     (if cv_n (pt_curve P) = 0 then Inl ZeroDivisionError
      else if k mod cv_n (pt_curve P) = 0 \<or> is_infinity P then Inr (infinity (pt_curve P))
      else if k < 0 then
        (case neg P of
           Inl e \<Rightarrow> Inl e
         | Inr P' \<Rightarrow> scalar_mult (- k) P')
      else scalar_loop k (infinity (pt_curve P)) P)"
  by pat_completeness auto
termination
  by (relation "measure (\<lambda>(k, P). if k < 0 then 1 else 0)") auto

declare scalar_mult.simps [simp del]

subsection \<open>Windowed NAF\<close>

text \<open>
  The precomputation loop appends \<^verbatim>\<open>precomp[-1] + twoP\<close> once per iteration; the list
  starts as \<^verbatim>\<open>[P]\<close> and is never empty.
\<close>

fun precomp_loop :: "nat \<Rightarrow> Point \<Rightarrow> Point list \<Rightarrow> error + Point list" where
  "precomp_loop 0 twoP acc = Inr acc"
| "precomp_loop (Suc m) twoP acc =
     (case add (last acc) twoP of
        Inl e \<Rightarrow> Inl e
      | Inr R \<Rightarrow> precomp_loop m twoP (acc @ [R]))"

text \<open>One digit: \<^verbatim>\<open>zi = k % (1 << w)\<close>, made negative above \<^verbatim>\<open>1 << (w-1)\<close>.\<close>

definition wnaf_digit :: "nat \<Rightarrow> int \<Rightarrow> int" where
  "wnaf_digit w k =
     (let zi = k mod 2 ^ w in if zi > 2 ^ (w - 1) then zi - 2 ^ w else zi)"

text \<open>The digits, least significant first, as \<^verbatim>\<open>naf.append\<close> builds them.\<close>

function wnaf_digits :: "nat \<Rightarrow> int \<Rightarrow> int list" where
  "wnaf_digits w k =
     (if k \<le> 0 then []
      else if odd k then wnaf_digit w k # wnaf_digits w ((k - wnaf_digit w k) div 2)
      else 0 # wnaf_digits w (k div 2))"
  by pat_completeness auto
termination
proof (relation "measure (\<lambda>(w, k). nat k)")
  fix w :: nat and k :: int
  assume "\<not> k \<le> 0" and "odd k"
  then have k: "0 < k" by simp
  define m where "m = k mod 2 ^ w"
  have m: "m \<le> k" "0 \<le> m"
    using k by (simp_all add: m_def zmod_le_nonneg_dividend)
  have "- k < wnaf_digit w k"
  proof (cases "m > 2 ^ (w - 1)")
    case False
    then have "wnaf_digit w k = m" by (simp add: wnaf_digit_def Let_def m_def)
    then show ?thesis using m k by linarith
  next
    case True
    have "w \<noteq> 0" using True m_def by (cases w) auto
    then have "(2::int) ^ w = 2 * 2 ^ (w - 1)" by (cases w) auto
    moreover have "wnaf_digit w k = m - 2 ^ w"
      using True by (simp add: wnaf_digit_def Let_def m_def)
    ultimately show ?thesis using True m k by linarith
  qed
  then have "(k - wnaf_digit w k) div 2 < k" using k by linarith
  then show "((w, (k - wnaf_digit w k) div 2), (w, k)) \<in> measure (\<lambda>(w, k). nat k)"
    using k by simp
qed auto

declare wnaf_digits.simps [simp del]

text \<open>The accumulation over \<^verbatim>\<open>reversed(naf)\<close>: double, then add or subtract a multiple.\<close>

fun wnaf_accumulate :: "Point list \<Rightarrow> int list \<Rightarrow> Point \<Rightarrow> error + Point" where
  "wnaf_accumulate precomp [] Q = Inr Q"
| "wnaf_accumulate precomp (zi # zs) Q =
     (case double Q of
        Inl e \<Rightarrow> Inl e
      | Inr Q2 \<Rightarrow>
          if zi \<noteq> 0 then
            (let idx = nat ((\<bar>zi\<bar> - 1) div 2) in
             if length precomp \<le> idx then Inl IndexError
             else case (if zi > 0 then Inr (precomp ! idx) else neg (precomp ! idx)) of
                    Inl e \<Rightarrow> Inl e
                  | Inr A \<Rightarrow>
                      (case add Q2 A of
                         Inl e \<Rightarrow> Inl e
                       | Inr Q3 \<Rightarrow> wnaf_accumulate precomp zs Q3))
          else wnaf_accumulate precomp zs Q2)"

function wnaf_scalar_mult :: "int \<Rightarrow> Point \<Rightarrow> int \<Rightarrow> error + Point" where
  "wnaf_scalar_mult k P w =
     (if cv_n (pt_curve P) = 0 then Inl ZeroDivisionError
      else if k mod cv_n (pt_curve P) = 0 \<or> is_infinity P then Inr (infinity (pt_curve P))
      else if k < 0 then
        (case neg P of
           Inl e \<Rightarrow> Inl e
         | Inr P' \<Rightarrow> wnaf_scalar_mult (- k) P' w)
      else
        (case double P of
           Inl e \<Rightarrow> Inl e
         | Inr twoP \<Rightarrow>
             if w < 2 then Inl ValueError
             else
               (case precomp_loop (2 ^ nat (w - 2) - 1) twoP [P] of
                  Inl e \<Rightarrow> Inl e
                | Inr precomp \<Rightarrow>
                    wnaf_accumulate precomp (rev (wnaf_digits (nat w) k)) (infinity (pt_curve P)))))"
  by pat_completeness auto
termination
  by (relation "measure (\<lambda>(k, P, w). if k < 0 then 1 else 0)") auto

declare wnaf_scalar_mult.simps [simp del]

section \<open>ecdsa.py\<close>

text \<open>
  The digest and the keyed digest come from \<^verbatim>\<open>hashlib\<close> and \<^verbatim>\<open>hmac\<close>; they are
  parameters of the model: \<open>sh\<close> for SHA-256 and \<open>hm\<close> for HMAC-SHA-256 (key first).
\<close>

definition bits2int :: "bytes \<Rightarrow> nat \<Rightarrow> int \<Rightarrow> error + int" where
  "bits2int bs qlen m =
     (let i = from_bytes bs; blen = length bs * 8;
          i' = (if blen > qlen then i div 2 ^ (blen - qlen) else i)
      in if m = 0 then Inl ZeroDivisionError else Inr (i' mod m))"

definition int2octets :: "int \<Rightarrow> nat \<Rightarrow> error + bytes" where
  "int2octets i rolen = to_bytes i rolen"

definition bits2octets :: "bytes \<Rightarrow> int \<Rightarrow> error + bytes" where
  "bits2octets bs m =
     (if m = 0 then Inl ZeroDivisionError
      else let z1 = from_bytes bs; z2 = z1 mod m; qlen = bit_length m; rolen = (qlen + 7) div 8
           in int2octets z2 rolen)"

text \<open>The inner loop: blocks are appended to \<^verbatim>\<open>T\<close> until it has \<^verbatim>\<open>rolen\<close> bytes.\<close>

partial_function (option) rfc6979_blocks ::
  "(bytes \<Rightarrow> bytes \<Rightarrow> bytes) \<Rightarrow> bytes \<Rightarrow> nat \<Rightarrow> bytes \<Rightarrow> bytes \<Rightarrow> (bytes \<times> bytes) option" where
  "rfc6979_blocks hm K rolen V T =
     (if length T < rolen then rfc6979_blocks hm K rolen (hm K V) (T @ hm K V)
      else Some (V, T))"

declare rfc6979_blocks.simps [code]

text \<open>The outer \<^verbatim>\<open>while True\<close> loop on the state \<^verbatim>\<open>(K, V)\<close>.\<close>

partial_function (option) rfc6979_loop ::
  "(bytes \<Rightarrow> bytes \<Rightarrow> bytes) \<Rightarrow> int \<Rightarrow> nat \<Rightarrow> nat \<Rightarrow> bytes \<Rightarrow> bytes \<Rightarrow> (error + int) option" where
  "rfc6979_loop hm m qlen rolen K V =
     (case rfc6979_blocks hm K rolen V [] of
        None \<Rightarrow> None
      | Some (V', T) \<Rightarrow>
          (case bits2int T qlen m of
             Inl e \<Rightarrow> Some (Inl e)
           | Inr k \<Rightarrow>
               if 1 \<le> k \<and> k < m then Some (Inr k)
               else rfc6979_loop hm m qlen rolen (hm K (V' @ [0])) (hm (hm K (V' @ [0])) V')))"

declare rfc6979_loop.simps [code]

definition rfc6979_generate_k ::
  "(bytes \<Rightarrow> bytes \<Rightarrow> bytes) \<Rightarrow> int \<Rightarrow> bytes \<Rightarrow> int \<Rightarrow> (error + int) option" where
  "rfc6979_generate_k hm priv h1 m =
     (let qlen = bit_length m; rolen = (qlen + 7) div 8 in
      case int2octets priv rolen of
        Inl e \<Rightarrow> Some (Inl e)
      | Inr o1 \<Rightarrow>
          (case bits2octets h1 m of
             Inl e \<Rightarrow> Some (Inl e)
           | Inr o2 \<Rightarrow>
               let bx = o1 @ o2;
                   V0 = replicate 32 (1::byte);
                   K0 = replicate 32 (0::byte);
                   K1 = hm K0 (V0 @ [0] @ bx);
                   V1 = hm K1 V0;
                   K2 = hm K1 (V1 @ [1] @ bx);
                   V2 = hm K2 V1
               in rfc6979_loop hm m qlen rolen K2 V2))"

text \<open>
  \<^verbatim>\<open>sign\<close>: the result is \<open>None\<close> when the call does not return, \<open>Some (Inl e)\<close> when
  it raises, \<open>Some (Inr (r, s))\<close> when it returns a signature.  On \<open>r = 0\<close> or
  \<open>s = 0\<close> the source calls itself with the same arguments.
\<close>

partial_function (option) sign ::
  "(bytes \<Rightarrow> bytes \<Rightarrow> bytes) \<Rightarrow> (bytes \<Rightarrow> bytes) \<Rightarrow> int \<Rightarrow> bytes \<Rightarrow> Curve \<Rightarrow> (error + int \<times> int) option" where
  "sign hm sh priv msg c =
     (case rfc6979_generate_k hm priv (sh msg) (cv_n c) of
        None \<Rightarrow> None
      | Some (Inl e) \<Rightarrow> Some (Inl e)
      | Some (Inr k) \<Rightarrow>
          (case G c of
             Inl e \<Rightarrow> Some (Inl e)
           | Inr g \<Rightarrow>
               (case scalar_mult k g of
                  Inl e \<Rightarrow> Some (Inl e)
                | Inr R \<Rightarrow>
                    (case pt_x R of
                       None \<Rightarrow> Some (Inl TypeError)
                     | Some xr \<Rightarrow>
                         if cv_n c = 0 then Some (Inl ZeroDivisionError)
                         else if xr mod cv_n c = 0 then sign hm sh priv msg c
                         else
                           (case py_pow_inv k (cv_n c) of
                              Inl e \<Rightarrow> Some (Inl e)
                            | Inr kinv \<Rightarrow>
                                if (kinv * (from_bytes (sh msg) mod cv_n c + (xr mod cv_n c) * priv)) mod cv_n c = 0
                                then sign hm sh priv msg c
                                else
                                  Some (Inr (xr mod cv_n c,
                                    (let s = (kinv * (from_bytes (sh msg) mod cv_n c + (xr mod cv_n c) * priv)) mod cv_n c
                                     in if s > cv_n c div 2 then cv_n c - s else s))))))))"

declare sign.simps [code]

definition verify :: "(bytes \<Rightarrow> bytes) \<Rightarrow> Point \<Rightarrow> bytes \<Rightarrow> int \<times> int \<Rightarrow> error + bool" where
  "verify sh pub msg sig =
     (let r = fst sig; s = snd sig; m = cv_n (pt_curve pub) in
      if \<not> (1 \<le> r \<and> r < m \<and> 1 \<le> s \<and> s < m) then Inr False
      else
        let e = from_bytes (sh msg) mod m in
        case py_pow_inv s m of
          Inl err \<Rightarrow> Inl err
        | Inr w \<Rightarrow>
            let u1 = (e * w) mod m; u2 = (r * w) mod m in
            (case G (pt_curve pub) of
               Inl err \<Rightarrow> Inl err
             | Inr g \<Rightarrow>
                 (case scalar_mult u1 g of
                    Inl err \<Rightarrow> Inl err
                  | Inr A \<Rightarrow>
                      (case scalar_mult u2 pub of
                         Inl err \<Rightarrow> Inl err
                       | Inr B \<Rightarrow>
                           (case add A B of
                              Inl err \<Rightarrow> Inl err
                            | Inr R \<Rightarrow>
                                if is_infinity R then Inr False
                                else (case pt_x R of
                                        None \<Rightarrow> Inl TypeError
                                      | Some x \<Rightarrow> Inr (x mod m = r)))))))"

section \<open>ecdh.py\<close>

definition kdf_sha256 :: "(bytes \<Rightarrow> bytes) \<Rightarrow> bytes \<Rightarrow> bytes" where
  "kdf_sha256 sh xs = sh xs"

definition ecdh_shared_secret :: "(bytes \<Rightarrow> bytes) \<Rightarrow> int \<Rightarrow> Point \<Rightarrow> error + bytes" where
  "ecdh_shared_secret sh priv peer_pub =
     (if \<not> (1 \<le> priv \<and> priv < cv_n (pt_curve peer_pub)) then Inl ValueError
      else case scalar_mult priv peer_pub of
             Inl e \<Rightarrow> Inl e
           | Inr S \<Rightarrow>
               if is_infinity S then Inl ValueError
               else (case pt_x S of
                       None \<Rightarrow> Inl TypeError
                     | Some x \<Rightarrow>
                         (case to_bytes x ((bit_length x + 7) div 8) of
                            Inl e \<Rightarrow> Inl e
                          | Inr x_bytes \<Rightarrow> Inr (kdf_sha256 sh x_bytes))))"

section \<open>Valid points and small curves\<close>

text \<open>
  A valid point is one the constructor accepts unchanged: the point at infinity, or two
  reduced coordinates that satisfy the curve equation.
\<close>

definition valid_point :: "Point \<Rightarrow> bool" where
  "valid_point P = (mk_Point (pt_curve P) (pt_x P) (pt_y P) = Inr P)"

text \<open>The curve \<open>y\<^sup>2 = x\<^sup>3 + 1\<close> over the field of two elements, and its point \<open>(0, 1)\<close>.\<close>

definition char2_curve :: Curve where
  "char2_curve = \<lparr>cv_name = ''char2'', cv_p = 2, cv_a = 0, cv_b = 1,
     cv_Gx = 0, cv_Gy = 1, cv_n = 3, cv_h = 1\<rparr>"

definition char2_point :: Point where
  "char2_point = \<lparr>pt_curve = char2_curve, pt_x = Some 0, pt_y = Some 1\<rparr>"

text \<open>
  The curve \<open>y\<^sup>2 = x\<^sup>3 + 7\<close> over the field of 13 elements: a group of prime order 7,
  generated by \<open>(8, 5)\<close>.
\<close>

definition toy13 :: Curve where
  "toy13 = \<lparr>cv_name = ''toy13'', cv_p = 13, cv_a = 0, cv_b = 7,
     cv_Gx = 8, cv_Gy = 5, cv_n = 7, cv_h = 1\<rparr>"

definition toy13_pt :: "int \<Rightarrow> int \<Rightarrow> Point" where
  "toy13_pt i j = \<lparr>pt_curve = toy13, pt_x = Some i, pt_y = Some j\<rparr>"

text \<open>
  Primality, for the field modulus and for the order of the base point, and the
  curve equation as a divisibility.  A good field has an odd prime modulus.
\<close>

definition is_prime :: "int \<Rightarrow> bool" where
  "is_prime q = (1 < q \<and> (\<forall>d \<in> {2..<q}. \<not> d dvd q))"

definition on_curve :: "Curve \<Rightarrow> int \<Rightarrow> int \<Rightarrow> bool" where
  "on_curve c i j = (cv_p c dvd j^2 - (i^3 + cv_a c * i + cv_b c))"

definition good_field :: "Curve \<Rightarrow> bool" where
  "good_field c = (is_prime (cv_p c) \<and> odd (cv_p c))"

text \<open>
  The curve \<open>y\<^sup>2 = x\<^sup>3 + x + 2\<close> over the field of 5 elements: a cyclic group of order 4,
  generated by \<open>(1, 2)\<close>; the order of the base point is composite.
\<close>

definition ord4_curve :: Curve where
  "ord4_curve = \<lparr>cv_name = ''ord4'', cv_p = 5, cv_a = 1, cv_b = 2,
     cv_Gx = 1, cv_Gy = 2, cv_n = 4, cv_h = 1\<rparr>"

definition ord4_G :: Point where
  "ord4_G = \<lparr>pt_curve = ord4_curve, pt_x = Some 1, pt_y = Some 2\<rparr>"

text \<open>
  Stand-ins for the two digest parameters, used to run the model: every output is 32
  bytes of the same value.
\<close>

definition const_hm :: "byte \<Rightarrow> bytes \<Rightarrow> bytes \<Rightarrow> bytes" where
  "const_hm v K m = replicate 32 v"

definition const_sh :: "byte \<Rightarrow> bytes \<Rightarrow> bytes" where
  "const_sh v m = replicate 32 v"

section \<open>Points with residues as coordinates\<close>

text \<open>
  For the group law the points are stripped of their records: a point is infinity or a
  pair of residues, and the addition is the one of \<^verbatim>\<open>__add__\<close> with the slope left
  unreduced.  Congruence modulo \<open>q\<close> is written \<open>cg q\<close>.
\<close>

definition cg :: "int \<Rightarrow> int \<Rightarrow> int \<Rightarrow> bool" where
  "cg q i j = (q dvd i - j)"

datatype rpoint = RInf | RPt int int

definition rinv :: "int \<Rightarrow> int \<Rightarrow> int" where
  "rinv q d = d ^ nat (q - 2) mod q"

definition radd :: "int \<Rightarrow> int \<Rightarrow> rpoint \<Rightarrow> rpoint \<Rightarrow> rpoint" where
  "radd q a P1 P2 =
     (case P1 of
        RInf \<Rightarrow> P2
      | RPt x1 y1 \<Rightarrow>
          (case P2 of
             RInf \<Rightarrow> P1
           | RPt x2 y2 \<Rightarrow>
               if x1 = x2 \<and> (y1 \<noteq> y2 \<or> y1 = 0) then RInf
               else
                 let l = (if x1 = x2 then (3 * x1^2 + a) * rinv q (2 * y1)
                          else (y2 - y1) * rinv q (x2 - x1));
                     x3 = (l^2 - x1 - x2) mod q;
                     y3 = (l * (x1 - x3) - y1) mod q
                 in RPt x3 y3))"

definition rneg :: "int \<Rightarrow> rpoint \<Rightarrow> rpoint" where
  "rneg q P = (case P of RInf \<Rightarrow> RInf | RPt x y \<Rightarrow> RPt x ((- y) mod q))"

definition ron :: "int \<Rightarrow> int \<Rightarrow> int \<Rightarrow> rpoint \<Rightarrow> bool" where
  "ron q a b P =
     (case P of
        RInf \<Rightarrow> True
      | RPt x y \<Rightarrow> 0 \<le> x \<and> x < q \<and> 0 \<le> y \<and> y < q \<and> q dvd y^2 - (x^3 + a * x + b)
          \<and> \<not> (y = 0 \<and> q dvd 3 * x^2 + a))"

text \<open>The modulus: an odd prime.  Singular points are excluded by \<open>ron\<close>.\<close>

definition ec_ok :: "int \<Rightarrow> int \<Rightarrow> int \<Rightarrow> bool" where
  "ec_ok q a b = (is_prime q \<and> q \<noteq> 2)"

definition chord :: "int \<Rightarrow> int \<Rightarrow> int \<Rightarrow> int \<Rightarrow> int \<Rightarrow> int \<Rightarrow> int \<Rightarrow> int \<Rightarrow> bool" where
  "chord q x1 y1 x2 y2 l x3 y3 =
     (cg q (l * (x2 - x1)) (y2 - y1) \<and> cg q x3 (l^2 - x1 - x2) \<and> cg q y3 (l * (x1 - x3) - y1))"

definition tangent :: "int \<Rightarrow> int \<Rightarrow> int \<Rightarrow> int \<Rightarrow> int \<Rightarrow> int \<Rightarrow> int \<Rightarrow> bool" where
  "tangent q a x1 y1 l x3 y3 =
     (cg q (l * (2 * y1)) (3 * x1^2 + a) \<and> cg q x3 (l^2 - x1 - x1) \<and> cg q y3 (l * (x1 - x3) - y1))"

definition pt :: "Curve \<Rightarrow> rpoint \<Rightarrow> Point" where
  "pt c P = (case P of RInf \<Rightarrow> infinity c
             | RPt x y \<Rightarrow> \<lparr>pt_curve = c, pt_x = Some x, pt_y = Some y\<rparr>)"

primrec rmul :: "int \<Rightarrow> int \<Rightarrow> nat \<Rightarrow> rpoint \<Rightarrow> rpoint" where
  "rmul q a 0 P = RInf"
| "rmul q a (Suc n) P = radd q a P (rmul q a n P)"

definition rgroup :: "int \<Rightarrow> int \<Rightarrow> (rpoint \<Rightarrow> bool) \<Rightarrow> bool" where
  "rgroup q a gd =
     (gd RInf
      \<and> (\<forall>P Q. gd P \<longrightarrow> gd Q \<longrightarrow> gd (radd q a P Q) \<and> radd q a P Q = radd q a Q P)
      \<and> (\<forall>P. gd P \<longrightarrow> gd (rneg q P) \<and> radd q a P (rneg q P) = RInf)
      \<and> (\<forall>P Q R. gd P \<longrightarrow> gd Q \<longrightarrow> gd R \<longrightarrow>
            radd q a P (radd q a Q R) = radd q a (radd q a P Q) R))"

definition models :: "Curve \<Rightarrow> (rpoint \<Rightarrow> bool) \<Rightarrow> bool" where
  "models c gd =
     ((\<forall>P Q. gd P \<longrightarrow> gd Q \<longrightarrow>
          add (pt c P) (pt c Q) = Inr (pt c (radd (cv_p c) (cv_a c) P Q)))
      \<and> (\<forall>P. gd P \<longrightarrow> neg (pt c P) = Inr (pt c (rneg (cv_p c) P))))"

definition odds :: "Curve \<Rightarrow> rpoint \<Rightarrow> nat \<Rightarrow> Point list" where
  "odds c P j = map (\<lambda>i. pt c (rmul (cv_p c) (cv_a c) (2 * i + 1) P)) [0..<j]"

definition gd2 :: "int \<Rightarrow> rpoint \<Rightarrow> bool" where
  "gd2 x P = (P = RInf \<or> P = RPt x 0)"

definition mod4_curve :: Curve where
  "mod4_curve = \<lparr>cv_name = ''mod4'', cv_p = 4, cv_a = 1, cv_b = 3, cv_Gx = 1, cv_Gy = 1,
     cv_n = 5, cv_h = 1\<rparr>"

definition mod4_pt :: "int \<Rightarrow> int \<Rightarrow> Point" where
  "mod4_pt i j = \<lparr>pt_curve = mod4_curve, pt_x = Some i, pt_y = Some j\<rparr>"

section \<open>Division by zero in point addition\<close>

lemma valid_point_affine:
  assumes "valid_point P" "pt_x P = Some i" "pt_y P = Some j"
  shows "cv_p (pt_curve P) \<noteq> 0 \<and> i mod cv_p (pt_curve P) = i \<and> j mod cv_p (pt_curve P) = j
     \<and> F_pow (cv_p (pt_curve P)) j 2 =
        (F_pow (cv_p (pt_curve P)) i 3 + F_mul (cv_p (pt_curve P)) (cv_a (pt_curve P)) i
          + cv_b (pt_curve P)) mod cv_p (pt_curve P)"
  using assms unfolding valid_point_def mk_Point_def
  by (cases P) (auto simp: Let_def split: if_splits)

lemma valid_point_cases:
  assumes "valid_point P" "\<not> is_infinity P"
  obtains i j where "pt_x P = Some i" "pt_y P = Some j"
  using assms
  by (cases P; cases "pt_x P"; cases "pt_y P")
    (auto simp: valid_point_def mk_Point_def is_infinity_def)

lemma mk_Point_not_zde: "cv_p c \<noteq> 0 \<Longrightarrow> mk_Point c xo yo \<noteq> Inl ZeroDivisionError"
  by (auto simp: mk_Point_def Let_def split: option.splits)

lemma F_inv_not_zde: "q \<noteq> 0 \<Longrightarrow> i mod q \<noteq> 0 \<Longrightarrow> F_inv q i \<noteq> Inl ZeroDivisionError"
  by (auto simp: F_inv_def py_pow_inv_def split: option.splits sum.splits)

lemma F_div_not_zde: "q \<noteq> 0 \<Longrightarrow> j mod q \<noteq> 0 \<Longrightarrow> F_div q i j \<noteq> Inl ZeroDivisionError"
  using F_inv_not_zde[of q j] by (auto simp: F_div_def split: sum.splits)

lemma double_denominator:
  assumes "odd q" "j mod q = j" "j \<noteq> 0"
  shows "F_mul q 2 j mod q \<noteq> 0"
proof
  assume "F_mul q 2 j mod q = 0"
  then have "q dvd 2 * j" by (simp add: F_mul_def dvd_eq_mod_eq_0)
  moreover have "coprime q 2" using assms(1) by simp
  ultimately have "q dvd j" by (simp add: coprime_dvd_mult_right_iff)
  then have "j mod q = 0" by (simp add: dvd_eq_mod_eq_0)
  with assms show False by simp
qed

lemma chord_denominator:
  assumes "i1 mod q = i1" "i2 mod q = i2" "i1 \<noteq> i2"
  shows "F_sub q i2 i1 mod q \<noteq> 0"
proof
  assume "F_sub q i2 i1 mod q = 0"
  then have "(i2 - i1) mod q = 0" by (simp add: F_sub_def)
  then have "i2 mod q = i1 mod q" by (simp add: mod_eq_dvd_iff dvd_eq_mod_eq_0)
  with assms show False by simp
qed

text \<open>
  C3, as stated, fails in characteristic two: on \<open>char2_curve\<close> the point \<open>(0, 1)\<close> has
  reduced coordinates and lies on the curve, and doubling it inverts \<open>2 \<cdot> 1 mod 2 = 0\<close>.
\<close>

theorem add_zero_division_char2:
  "valid_point char2_point \<and> pt_x char2_point = Some 0 \<and> pt_y char2_point = Some 1
   \<and> cv_p (pt_curve char2_point) = 2
   \<and> add char2_point char2_point = Inl ZeroDivisionError"
  by (simp add: valid_point_def mk_Point_def char2_point_def char2_curve_def add_def
      is_infinity_def F_pow_def F_mul_def F_add_def F_div_def F_inv_def Let_def)

text \<open>
  C3, amended: for valid points \<open>P\<close> and \<open>Q\<close> on a curve whose modulus is odd, \<open>P + Q\<close>
  never raises the division-by-zero condition: the denominator of the tangent slope and
  the denominator of the chord slope are nonzero modulo \<open>p\<close>.
\<close>

theorem add_no_zero_division:
  assumes "valid_point P" "valid_point Q" "odd (cv_p (pt_curve P))"
  shows "add P Q \<noteq> Inl ZeroDivisionError"
proof (cases "pt_curve P \<noteq> pt_curve Q \<or> is_infinity P \<or> is_infinity Q")
  case True
  then show ?thesis by (auto simp: add_def)
next
  case False
  then have c: "pt_curve Q = pt_curve P" and nP: "\<not> is_infinity P" and nQ: "\<not> is_infinity Q"
    by auto
  from assms(1) nP obtain x1 y1 where P: "pt_x P = Some x1" "pt_y P = Some y1"
    by (rule valid_point_cases)
  from assms(2) nQ obtain x2 y2 where Q: "pt_x Q = Some x2" "pt_y Q = Some y2"
    by (rule valid_point_cases)
  let ?q = "cv_p (pt_curve P)"
  have q: "?q \<noteq> 0" using assms(3) by auto
  have r1: "x1 mod ?q = x1" "y1 mod ?q = y1" using valid_point_affine[OF assms(1) P] by auto
  have r2: "x2 mod ?q = x2" "y2 mod ?q = y2" using valid_point_affine[OF assms(2) Q] c by auto
  show ?thesis
  proof (cases "x1 = x2 \<and> (y1 \<noteq> y2 \<or> y1 = 0)")
    case True
    then show ?thesis using c nP nQ P Q by (simp add: add_def)
  next
    case nv: False
    show ?thesis
    proof (cases "x1 = x2 \<and> y1 = y2")
      case True
      then have "y1 \<noteq> 0" using nv by auto
      then have "F_div ?q (F_add ?q (F_mul ?q 3 (F_pow ?q x1 2)) (cv_a (pt_curve P)))
          (F_mul ?q 2 y1) \<noteq> Inl ZeroDivisionError"
        using F_div_not_zde[OF q double_denominator[OF assms(3) r1(2)]] by simp
      then show ?thesis using c nP nQ P Q nv True q mk_Point_not_zde[OF q]
        by (auto simp: add_def Let_def split: sum.splits)
    next
      case False
      then have "x1 \<noteq> x2" using nv by auto
      then have "F_div ?q (F_sub ?q y2 y1) (F_sub ?q x2 x1) \<noteq> Inl ZeroDivisionError"
        using F_div_not_zde[OF q chord_denominator[OF r1(1) r2(1)]] by simp
      then show ?thesis using c nP nQ P Q nv False q mk_Point_not_zde[OF q]
        by (auto simp: add_def Let_def split: sum.splits)
    qed
  qed
qed

theorem add_no_zero_division_witness:
  "valid_point (toy13_pt 8 5) \<and> valid_point (toy13_pt 11 5)
   \<and> odd (cv_p (pt_curve (toy13_pt 8 5)))
   \<and> add (toy13_pt 8 5) (toy13_pt 11 5) \<noteq> Inl ZeroDivisionError"
proof -
  have h1: "valid_point (toy13_pt 8 5)"
    by (simp add: valid_point_def mk_Point_def toy13_pt_def toy13_def F_pow_def F_mul_def Let_def)
  have h2: "valid_point (toy13_pt 11 5)"
    by (simp add: valid_point_def mk_Point_def toy13_pt_def toy13_def F_pow_def F_mul_def Let_def)
  have h3: "odd (cv_p (pt_curve (toy13_pt 8 5)))"
    by (simp add: toy13_pt_def toy13_def)
  show ?thesis using h1 h2 h3 add_no_zero_division[OF h1 h2 h3] by simp
qed

section \<open>Signatures returned by \<open>sign\<close>\<close>

lemma rfc6979_loop_range:
  assumes "rfc6979_loop hm m qlen rolen K V = Some r"
  shows "\<forall>k. r = Inr k \<longrightarrow> 1 \<le> k \<and> k < m"
proof (rule rfc6979_loop.raw_induct[where P = "\<lambda>hm m qlen rolen K V r.
        \<forall>k. r = Inr k \<longrightarrow> 1 \<le> k \<and> k < m", OF _ assms], goal_cases)
  case (1 loop' hm m qlen rolen K V r)
  show ?case
  proof (intro allI impI)
    fix k assume rk: "r = Inr k"
    from 1(2) obtain V' T where b: "rfc6979_blocks hm K rolen V [] = Some (V', T)"
      by (auto split: option.splits)
    show "1 \<le> k \<and> k < m"
    proof (cases "bits2int T qlen m")
      case (Inl e)
      then show ?thesis using 1(2) b rk by simp
    next
      case (Inr k0)
      show ?thesis
      proof (cases "1 \<le> k0 \<and> k0 < m")
        case True
        then show ?thesis using 1(2) b rk Inr by auto
      next
        case False
        then have "loop' hm m qlen rolen (hm K (V' @ [0])) (hm (hm K (V' @ [0])) V') = Some r"
          using 1(2) b Inr by auto
        from 1(1)[OF this] rk show ?thesis by simp
      qed
    qed
  qed
qed

lemma rfc6979_generate_k_range:
  assumes "rfc6979_generate_k hm priv h1 m = Some (Inr k)"
  shows "1 \<le> k \<and> k < m"
  using assms rfc6979_loop_range[of hm m _ _ _ _ "Inr k"]
  by (auto simp: rfc6979_generate_k_def Let_def split: sum.splits)

lemma r_bounds: "1 < m \<Longrightarrow> i mod m \<noteq> 0 \<Longrightarrow> 1 \<le> i mod m \<and> i mod m < (m::int)"
  by (smt (verit) pos_mod_bound pos_mod_sign)

lemma s_bounds:
  assumes "1 < (m::int)" "i mod m \<noteq> 0"
  shows "1 \<le> (if i mod m > m div 2 then m - i mod m else i mod m)
       \<and> (if i mod m > m div 2 then m - i mod m else i mod m) < m
       \<and> 2 * (if i mod m > m div 2 then m - i mod m else i mod m) \<le> m"
proof -
  have "1 \<le> i mod m" "i mod m < m" using r_bounds[OF assms] by auto
  then show ?thesis by auto
qed

text \<open>
  When the nonce gives \<open>r = 0\<close> or \<open>s = 0\<close>, \<open>sign\<close> calls itself on the same
  arguments; such a call has no result.
\<close>

lemma sign_retry_aux:
  assumes k: "rfc6979_generate_k hm priv (sh msg) (cv_n c) = Some (Inr k)"
    and g: "G c = Inr g" and R: "scalar_mult k g = Inr R" and xr: "pt_x R = Some xr"
    and z: "xr mod cv_n c = 0"
    and s: "sign hm sh priv msg c = Some res"
  shows False
proof -
  have n0: "cv_n c \<noteq> 0" using rfc6979_generate_k_range[OF k] by auto
  have "(hm, sh, priv, msg, c) = (hm, sh, priv, msg, c) \<longrightarrow> False"
  proof (rule sign.raw_induct[where P = "\<lambda>hm' sh' priv' msg' c' res.
          (hm', sh', priv', msg', c') = (hm, sh, priv, msg, c) \<longrightarrow> False", OF _ s], goal_cases)
    case (1 sign' hm' sh' priv' msg' c' res)
    show ?case
    proof
      assume eq: "(hm', sh', priv', msg', c') = (hm, sh, priv, msg, c)"
      then have "sign' hm' sh' priv' msg' c' = Some res"
        using 1(2) k g R xr z n0 by simp
      from 1(1)[OF this] eq show False by simp
    qed
  qed
  then show False by simp
qed

lemma sign_retry_s_aux:
  assumes k: "rfc6979_generate_k hm priv (sh msg) (cv_n c) = Some (Inr k)"
    and g: "G c = Inr g" and R: "scalar_mult k g = Inr R" and xr: "pt_x R = Some xr"
    and rnz: "xr mod cv_n c \<noteq> 0" and kinv: "py_pow_inv k (cv_n c) = Inr kinv"
    and z: "(kinv * (from_bytes (sh msg) mod cv_n c + (xr mod cv_n c) * priv)) mod cv_n c = 0"
    and s: "sign hm sh priv msg c = Some res"
  shows False
proof -
  have n0: "cv_n c \<noteq> 0" using rfc6979_generate_k_range[OF k] by auto
  have "(hm, sh, priv, msg, c) = (hm, sh, priv, msg, c) \<longrightarrow> False"
  proof (rule sign.raw_induct[where P = "\<lambda>hm' sh' priv' msg' c' res.
          (hm', sh', priv', msg', c') = (hm, sh, priv, msg, c) \<longrightarrow> False", OF _ s], goal_cases)
    case (1 sign' hm' sh' priv' msg' c' res)
    show ?case
    proof
      assume eq: "(hm', sh', priv', msg', c') = (hm, sh, priv, msg, c)"
      then have "sign' hm' sh' priv' msg' c' = Some res"
        using 1(2) k g R xr z n0 rnz kinv by simp
      from 1(1)[OF this] eq show False by simp
    qed
  qed
  then show False by simp
qed

text \<open>One unfolding of sign in which the two self-calls are replaced by their value.\<close>

lemma sign_unfold:
  "sign hm sh priv msg c =
     (case rfc6979_generate_k hm priv (sh msg) (cv_n c) of
        None \<Rightarrow> None
      | Some (Inl e) \<Rightarrow> Some (Inl e)
      | Some (Inr k) \<Rightarrow>
          (case G c of
             Inl e \<Rightarrow> Some (Inl e)
           | Inr g \<Rightarrow>
               (case scalar_mult k g of
                  Inl e \<Rightarrow> Some (Inl e)
                | Inr R \<Rightarrow>
                    (case pt_x R of
                       None \<Rightarrow> Some (Inl TypeError)
                     | Some xr \<Rightarrow>
                         if cv_n c = 0 then Some (Inl ZeroDivisionError)
                         else if xr mod cv_n c = 0 then None
                         else
                           (case py_pow_inv k (cv_n c) of
                              Inl e \<Rightarrow> Some (Inl e)
                            | Inr kinv \<Rightarrow>
                                if (kinv * (from_bytes (sh msg) mod cv_n c + (xr mod cv_n c) * priv)) mod cv_n c = 0
                                then None
                                else
                                  Some (Inr (xr mod cv_n c,
                                    (let s = (kinv * (from_bytes (sh msg) mod cv_n c + (xr mod cv_n c) * priv)) mod cv_n c
                                     in if s > cv_n c div 2 then cv_n c - s else s))))))))"
  (is "?l = ?r")
proof (cases "rfc6979_generate_k hm priv (sh msg) (cv_n c)")
  case None
  then show ?thesis by (subst sign.simps) simp
next
  case (Some a)
  show ?thesis
  proof (cases a)
    case (Inl e)
    then show ?thesis using Some by (subst sign.simps) simp
  next
    case (Inr k)
    note k = Some[unfolded Inr]
    show ?thesis
    proof (cases "G c")
      case (Inl e)
      then show ?thesis using k by (subst sign.simps) simp
    next
      case g: (Inr g)
      show ?thesis
      proof (cases "scalar_mult k g")
        case (Inl e)
        then show ?thesis using k g by (subst sign.simps) simp
      next
        case R: (Inr R)
        show ?thesis
        proof (cases "pt_x R")
          case None
          then show ?thesis using k g R by (subst sign.simps) simp
        next
          case xr: (Some xr)
          show ?thesis
          proof (cases "xr mod cv_n c = 0")
            case True
            have "sign hm sh priv msg c = None"
            proof (cases "sign hm sh priv msg c")
              case (Some res)
              from sign_retry_aux[OF k g R xr True Some] show ?thesis ..
            qed simp
            moreover have "cv_n c \<noteq> 0" using rfc6979_generate_k_range[OF k] by auto
            ultimately show ?thesis using k g R xr True by simp
          next
            case rnz: False
            show ?thesis
            proof (cases "py_pow_inv k (cv_n c)")
              case (Inl e)
              then show ?thesis using k g R xr rnz by (subst sign.simps) simp
            next
              case kinv: (Inr kinv)
              show ?thesis
              proof (cases "(kinv * (from_bytes (sh msg) mod cv_n c + (xr mod cv_n c) * priv)) mod cv_n c = 0")
                case True
                have "sign hm sh priv msg c = None"
                proof (cases "sign hm sh priv msg c")
                  case (Some res)
                  from sign_retry_s_aux[OF k g R xr rnz kinv True Some] show ?thesis ..
                qed simp
                moreover have "cv_n c \<noteq> 0" using rfc6979_generate_k_range[OF k] by auto
                ultimately show ?thesis using k g R xr rnz kinv True by simp
              next
                case False
                then show ?thesis using k g R xr rnz kinv by (subst sign.simps) simp
              qed
            qed
          qed
        qed
      qed
    qed
  qed
qed

text \<open>
  C7: every pair \<open>(r, s)\<close> that \<open>sign\<close> returns is computed from the nonce \<open>k\<close> of
  \<open>rfc6979_generate_k\<close>: \<open>r\<close> is the abscissa of \<open>k G\<close> modulo \<open>n\<close>, and \<open>s\<close> is the
  computed value \<open>s0 = kinv (e + r priv) mod n\<close>, replaced by \<open>n - s0\<close> whenever \<open>s0\<close> exceeds
  \<open>n div 2\<close>.  Both are in \<open>[1, n)\<close>, and \<open>2 s \<le> n\<close>, that is \<open>s \<le> n / 2\<close>.
\<close>

theorem sign_low_s:
  assumes "sign hm sh priv msg c = Some (Inr (r, s))"
  shows "\<exists>k g R xr kinv s0.
      rfc6979_generate_k hm priv (sh msg) (cv_n c) = Some (Inr k) \<and> G c = Inr g
      \<and> scalar_mult k g = Inr R \<and> pt_x R = Some xr \<and> py_pow_inv k (cv_n c) = Inr kinv
      \<and> r = xr mod cv_n c
      \<and> s0 = (kinv * (from_bytes (sh msg) mod cv_n c + r * priv)) mod cv_n c
      \<and> s = (if s0 > cv_n c div 2 then cv_n c - s0 else s0)
      \<and> 1 \<le> r \<and> r < cv_n c \<and> 1 \<le> s \<and> s < cv_n c \<and> 2 * s \<le> cv_n c"
proof -
  note a = assms[unfolded sign_unfold[of hm sh priv msg c]]
  from a obtain k where k: "rfc6979_generate_k hm priv (sh msg) (cv_n c) = Some (Inr k)"
    by (auto split: option.splits sum.splits)
  have npos: "1 < cv_n c" using rfc6979_generate_k_range[OF k] by simp
  from a k obtain g where g: "G c = Inr g" by (auto split: sum.splits)
  from a k g obtain R where R: "scalar_mult k g = Inr R" by (auto split: sum.splits)
  from a k g R obtain xr where xr: "pt_x R = Some xr" by (auto split: option.splits)
  from a k g R xr npos have rnz: "xr mod cv_n c \<noteq> 0" by (auto split: if_splits)
  from a k g R xr npos rnz obtain kinv where kinv: "py_pow_inv k (cv_n c) = Inr kinv"
    by (auto split: sum.splits)
  let ?s0 = "(kinv * (from_bytes (sh msg) mod cv_n c + (xr mod cv_n c) * priv)) mod cv_n c"
  from a k g R xr npos rnz kinv have snz: "?s0 \<noteq> 0" by (auto split: if_splits)
  from a k g R xr npos rnz kinv snz
  have r: "r = xr mod cv_n c" and s: "s = (if ?s0 > cv_n c div 2 then cv_n c - ?s0 else ?s0)"
    by (auto simp: Let_def split: if_splits)
  have b: "1 \<le> r \<and> r < cv_n c" using r_bounds[OF npos rnz] r by simp
  have "1 \<le> s \<and> s < cv_n c \<and> 2 * s \<le> cv_n c" using s_bounds[OF npos snz] s by simp
  with k g R xr kinv r s b show ?thesis by blast
qed

lemma sign_toy13_low: "sign (const_hm 0x20) (const_sh 3) 3 [] toy13 = Some (Inr (1, 3))"
  by code_simp

lemma sign_toy13_low_raw:
  "rfc6979_generate_k (const_hm 0x20) 3 (const_sh 3 []) (cv_n toy13) = Some (Inr 1)"
  "G toy13 = Inr (toy13_pt 8 5)"
  "scalar_mult 1 (toy13_pt 8 5) = Inr (toy13_pt 8 5)"
  "py_pow_inv 1 (cv_n toy13) = Inr 1"
  "(1 * (from_bytes (const_sh 3 []) mod cv_n toy13 + 8 mod cv_n toy13 * 3)) mod cv_n toy13 = 4"
  by code_simp+

theorem sign_low_s_witness:
  "sign (const_hm 0x20) (const_sh 3) 3 [] toy13 = Some (Inr (1, 3))
   \<and> (\<exists>kinv s0. py_pow_inv 1 (cv_n toy13) = Inr kinv
        \<and> s0 = (kinv * (from_bytes (const_sh 3 []) mod cv_n toy13 + 1 * 3)) mod cv_n toy13
        \<and> s0 = 4 \<and> s0 > cv_n toy13 div 2 \<and> (3::int) = cv_n toy13 - s0)
   \<and> (1::int) \<le> 1 \<and> 1 < cv_n toy13 \<and> (1::int) \<le> 3 \<and> 3 < cv_n toy13 \<and> 2 * 3 \<le> cv_n toy13"
proof -
  from sign_low_s[OF sign_toy13_low]
  obtain k g R xr kinv s0 where
    f: "rfc6979_generate_k (const_hm 0x20) 3 (const_sh 3 []) (cv_n toy13) = Some (Inr k)"
      "G toy13 = Inr g" "scalar_mult k g = Inr R" "pt_x R = Some xr"
      "py_pow_inv k (cv_n toy13) = Inr kinv" "1 = xr mod cv_n toy13"
      "s0 = (kinv * (from_bytes (const_sh 3 []) mod cv_n toy13 + 1 * 3)) mod cv_n toy13"
      "3 = (if s0 > cv_n toy13 div 2 then cv_n toy13 - s0 else s0)"
    and b: "(1::int) \<le> 1 \<and> 1 < cv_n toy13 \<and> (1::int) \<le> 3 \<and> 3 < cv_n toy13 \<and> 2 * 3 \<le> cv_n toy13"
    by blast
  have k: "k = 1" using f(1) sign_toy13_low_raw(1) by simp
  then have kinv: "kinv = 1" using f(5) sign_toy13_low_raw(4) by simp
  have s0: "s0 = 4" using f(7) sign_toy13_low_raw(5) unfolding kinv by (simp add: toy13_def)
  have "py_pow_inv 1 (cv_n toy13) = Inr kinv" using f(5) k by simp
  moreover have "s0 > cv_n toy13 div 2" "(3::int) = cv_n toy13 - s0"
    unfolding s0 by (simp_all add: toy13_def)
  ultimately show ?thesis using sign_toy13_low f(7) s0 b by blast
qed

section \<open>Determinism of \<open>sign\<close>\<close>




section \<open>The nonce generator and out-of-range candidates\<close>

text \<open>
  C4 does not hold of the code: \<open>bits2int\<close> reduces the converted integer modulo \<open>n\<close>
  before the range test, so a candidate \<open>cand \<ge> n\<close> that is not a multiple of \<open>n\<close> is
  returned as \<open>cand mod n\<close> by the first iteration, with no further update of the state.
\<close>

theorem rfc6979_loop_returns_reduced:
  assumes "rfc6979_blocks hm K rolen V [] = Some (V', T)"
    and "cand = (if length T * 8 > qlen then from_bytes T div 2 ^ (length T * 8 - qlen) else from_bytes T)"
    and "0 < m" and "m \<le> cand" and "cand mod m \<noteq> 0"
  shows "rfc6979_loop hm m qlen rolen K V = Some (Inr (cand mod m))"
proof -
  have "1 \<le> cand mod m \<and> cand mod m < m"
    using assms(3,5) by (smt (verit) pos_mod_bound pos_mod_sign)
  then show ?thesis
    using assms by (subst rfc6979_loop.simps) (simp add: bits2int_def Let_def)
qed

lemma blocks_const_hm:
  "rfc6979_blocks (const_hm v) K 1 V [] = Some (replicate 32 v, replicate 32 v)"
  by (subst rfc6979_blocks.simps, subst rfc6979_blocks.simps) (simp add: const_hm_def)

theorem rfc6979_loop_returns_reduced_witness:
  "rfc6979_blocks (const_hm 0xE0) [] 1 [] [] = Some (replicate 32 0xE0, replicate 32 0xE0)
   \<and> (7::int) = (if length (replicate 32 (0xE0::byte)) * 8 > 3
         then from_bytes (replicate 32 0xE0) div 2 ^ (length (replicate 32 (0xE0::byte)) * 8 - 3)
         else from_bytes (replicate 32 0xE0))
   \<and> (0::int) < 5 \<and> (5::int) \<le> 7 \<and> (7::int) mod 5 \<noteq> 0
   \<and> rfc6979_loop (const_hm 0xE0) 5 3 1 [] [] = Some (Inr 2)"
proof -
  have h1: "rfc6979_blocks (const_hm 0xE0) [] 1 [] [] = Some (replicate 32 0xE0, replicate 32 0xE0)"
    by (rule blocks_const_hm)
  have h2: "(7::int) = (if length (replicate 32 (0xE0::byte)) * 8 > 3
         then from_bytes (replicate 32 0xE0) div 2 ^ (length (replicate 32 (0xE0::byte)) * 8 - 3)
         else from_bytes (replicate 32 0xE0))"
    by code_simp
  have h3: "(0::int) < 5" "(5::int) \<le> 7" "(7::int) mod 5 \<noteq> 0" by simp_all
  show ?thesis
    using h1 h2 h3 rfc6979_loop_returns_reduced[OF h1 h2 h3] by simp
qed

section \<open>The retry of \<open>sign\<close>\<close>

text \<open>
  C2 does not hold of the code: when the nonce gives \<open>r = 0\<close>, \<open>sign\<close> calls itself with
  the same arguments; the nonce is a function of these arguments, so the call never
  returns and no signature reaches \<open>verify\<close>.
\<close>

theorem sign_retry_never_returns:
  assumes "rfc6979_generate_k hm priv (sh msg) (cv_n c) = Some (Inr k)"
    and "G c = Inr g" and "scalar_mult k g = Inr R" and "pt_x R = Some xr"
    and "xr mod cv_n c = 0"
  shows "sign hm sh priv msg c = None"
proof (cases "sign hm sh priv msg c")
  case None
  then show ?thesis .
next
  case (Some res)
  from sign_retry_aux[OF assms Some] show ?thesis ..
qed

theorem sign_retry_never_returns_witness:
  "rfc6979_generate_k (const_hm 0x60) 2 (const_sh 3 []) (cv_n toy13) = Some (Inr 3)
   \<and> G toy13 = Inr (toy13_pt 8 5)
   \<and> scalar_mult 3 (toy13_pt 8 5) = Inr (toy13_pt 7 8)
   \<and> pt_x (toy13_pt 7 8) = Some 7
   \<and> 7 mod cv_n toy13 = 0
   \<and> sign (const_hm 0x60) (const_sh 3) 2 [] toy13 = None"
proof -
  have h1: "rfc6979_generate_k (const_hm 0x60) 2 (const_sh 3 []) (cv_n toy13) = Some (Inr 3)"
    by code_simp
  have h2: "G toy13 = Inr (toy13_pt 8 5)" by code_simp
  have h3: "scalar_mult 3 (toy13_pt 8 5) = Inr (toy13_pt 7 8)" by code_simp
  have h4: "pt_x (toy13_pt 7 8) = Some 7" by (simp add: toy13_pt_def)
  have h5: "7 mod cv_n toy13 = 0" by (simp add: toy13_def)
  show ?thesis
    using h1 h2 h3 h4 h5 sign_retry_never_returns[of "const_hm 0x60" 2 "const_sh 3" "[]" toy13, OF h1 h2 h3 h4 h5]
    by simp
qed


section \<open>Primes and inverses\<close>

lemma is_prime_coprime:
  assumes "is_prime q" "\<not> q dvd i"
  shows "coprime q i"
proof (rule coprimeI)
  fix d assume d: "d dvd q" "d dvd i"
  have q: "1 < q" using assms(1) by (simp add: is_prime_def)
  have "\<bar>d\<bar> dvd q" using d(1) by simp
  have "\<bar>d\<bar> \<le> q" using \<open>\<bar>d\<bar> dvd q\<close> q by (simp add: zdvd_imp_le)
  have "d \<noteq> 0" using d(1) q by auto
  have "\<bar>d\<bar> \<noteq> q" using d(2) assms(2) by (metis abs_dvd_iff)
  have "\<bar>d\<bar> = 1"
  proof (rule ccontr)
    assume "\<bar>d\<bar> \<noteq> 1"
    then have "\<bar>d\<bar> \<in> {2..<q}" using \<open>\<bar>d\<bar> \<le> q\<close> \<open>\<bar>d\<bar> \<noteq> q\<close> \<open>d \<noteq> 0\<close> by auto
    moreover have "\<forall>e\<in>{2..<q}. \<not> e dvd q" using assms(1) by (simp add: is_prime_def)
    ultimately have "\<not> \<bar>d\<bar> dvd q" by blast
    then show False using \<open>\<bar>d\<bar> dvd q\<close> by simp
  qed
  then show "is_unit d" by simp
qed

lemma is_prime_dvd_mult:
  assumes "is_prime q" "q dvd i * j"
  shows "q dvd i \<or> q dvd j"
proof (cases "q dvd i")
  case True
  then show ?thesis by simp
next
  case False
  then have "coprime q i" using is_prime_coprime[OF assms(1)] by simp
  then have "q dvd j * i \<longleftrightarrow> q dvd j" by (rule coprime_dvd_mult_left_iff)
  then show ?thesis using assms(2) by (simp add: mult.commute)
qed

lemma prime_dvd_choose:
  assumes "is_prime (int p)" "0 < k" "k < p"
  shows "p dvd (p choose k)"
proof -
  have "\<not> p dvd k" using assms(2,3) by (rule nat_dvd_not_less)
  then have "\<not> int p dvd int k" by simp
  then have "coprime (int p) (int k)" by (rule is_prime_coprime[OF assms(1)])
  have "k * (p choose k) = p * ((p - 1) choose (k - 1))"
    using assms(2) by (rule times_binomial_minus1_eq)
  then have "int p dvd int k * int (p choose k)"
    by (metis dvd_triv_left of_nat_mult)
  then have "int p dvd int (p choose k)"
    using \<open>coprime (int p) (int k)\<close> by (simp add: coprime_dvd_mult_right_iff)
  then show ?thesis by simp
qed

lemma fermat_nat:
  assumes "is_prime (int p)"
  shows "(a ^ p) mod p = a mod p"
proof (induction a)
  case 0
  have "0 < p" using assms by (simp add: is_prime_def)
  then show ?case by (simp add: zero_power)
next
  case (Suc a)
  have p2: "2 \<le> p" using assms by (simp add: is_prime_def)
  have "(a + 1) ^ p = (\<Sum>k\<le>p. (p choose k) * a ^ k * 1 ^ (p - k))"
    using binomial[of a 1 p] by simp
  also have "\<dots> = (\<Sum>k\<le>p. (p choose k) * a ^ k)" by simp
  also have "{..p} = insert 0 (insert p {1..<p})" using p2 by auto
  also have "(\<Sum>k\<in>insert 0 (insert p {1..<p}). (p choose k) * a ^ k)
      = 1 + a ^ p + (\<Sum>k\<in>{1..<p}. (p choose k) * a ^ k)"
    using p2 by simp
  finally have e: "(a + 1) ^ p = 1 + a ^ p + (\<Sum>k\<in>{1..<p}. (p choose k) * a ^ k)" .
  have "p dvd (\<Sum>k\<in>{1..<p}. (p choose k) * a ^ k)"
    by (rule dvd_sum) (use prime_dvd_choose[OF assms] in auto)
  then have "(a + 1) ^ p mod p = (1 + a ^ p) mod p"
    unfolding e by (metis mod_add_self2 dvd_eq_mod_eq_0 mod_add_right_eq add.right_neutral)
  also have "\<dots> = (1 + a) mod p" using Suc by (metis mod_add_right_eq)
  finally show ?case by simp
qed

lemma fermat_int:
  assumes "is_prime q" "i mod q \<noteq> 0"
  shows "(i * i ^ nat (q - 2)) mod q = 1"
proof -
  have q: "2 \<le> q" using assms(1) by (simp add: is_prime_def)
  define p where "p = nat q"
  define a where "a = nat (i mod q)"
  have pq: "int p = q" using q by (simp add: p_def)
  have ia: "int a = i mod q" using q by (simp add: a_def)
  have a0: "0 < a" using assms(2) ia q by (smt (verit) of_nat_0_less_iff pos_mod_sign)
  have ap: "a < p" using ia pq q by (smt (verit) of_nat_less_iff pos_mod_bound)
  have "is_prime (int p)" using assms(1) pq by simp
  then have "(a ^ p) mod p = a mod p" by (rule fermat_nat)
  then have "int ((a ^ p) mod p) = int (a mod p)" by simp
  then have "(int a ^ p) mod q = int a mod q" by (simp add: zmod_int pq)
  then have "q dvd int a ^ p - int a" by (simp add: mod_eq_dvd_iff)
  moreover have "int a ^ p - int a = int a * (int a ^ (p - 1) - 1)"
    using ap a0 by (cases p) (auto simp: algebra_simps)
  ultimately have "q dvd int a * (int a ^ (p - 1) - 1)" by simp
  moreover have "\<not> q dvd int a" using assms(2) ia by (simp add: dvd_eq_mod_eq_0)
  ultimately have "q dvd int a ^ (p - 1) - 1"
    using is_prime_dvd_mult[OF assms(1)] by blast
  then have "(int a ^ (p - 1)) mod q = 1 mod q" by (simp add: mod_eq_dvd_iff)
  then have one: "(int a ^ (p - 1)) mod q = 1" using q by simp
  have "p - 1 = Suc (nat (q - 2))" using q by (simp add: p_def)
  then have "int a ^ (p - 1) = int a * int a ^ nat (q - 2)" by simp
  then have "(int a * int a ^ nat (q - 2)) mod q = 1" using one by simp
  then have "((i mod q) * (i mod q) ^ nat (q - 2)) mod q = 1" by (simp add: ia)
  then show ?thesis by (metis mod_mult_eq power_mod mod_mod_trivial)
qed

section \<open>Closure of the group operations\<close>

lemma F_inv_prime:
  assumes "is_prime q" "i mod q \<noteq> 0"
  shows "\<exists>j. F_inv q i = Inr j \<and> q dvd i * j - 1"
proof -
  have q: "2 \<le> q" using assms(1) by (simp add: is_prime_def)
  have "(i * i ^ nat (q - 2)) mod q = 1" using assms by (rule fermat_int)
  then have "(i * (i ^ nat (q - 2) mod q)) mod q = 1 mod q" using q by (simp add: mod_simps)
  then have "q dvd i * (i ^ nat (q - 2) mod q) - 1" by (simp add: mod_eq_dvd_iff)
  then show ?thesis using q assms(2) by (simp add: F_inv_def)
qed

lemma F_div_prime:
  assumes "is_prime q" "i mod q \<noteq> 0"
  shows "\<exists>j. F_div q k i = Inr ((k * j) mod q) \<and> q dvd i * j - 1"
  using F_inv_prime[OF assms] by (auto simp: F_div_def F_mul_def)

lemma rhs_mod: "(i ^ 3 mod q + a * i mod q + b) mod q = (i ^ 3 + a * i + b) mod (q::int)"
  by (metis mod_add_eq mod_add_left_eq)

lemma dvd_mod_diff: "(q::int) dvd i mod q - i"
  by (simp add: mod_eq_dvd_iff[symmetric])

lemma curve_check_iff:
  "(F_pow q j 2 = (F_pow q i 3 + F_mul q a i + b) mod q) \<longleftrightarrow> q dvd j^2 - (i^3 + a * i + b)"
  unfolding F_pow_def F_mul_def rhs_mod by (simp add: mod_eq_dvd_iff)

lemma mk_Point_on_curve:
  assumes "cv_p c \<noteq> 0" "on_curve c i j"
  shows "mk_Point c (Some i) (Some j) = Inr \<lparr>pt_curve = c, pt_x = Some (i mod cv_p c), pt_y = Some (j mod cv_p c)\<rparr>"
proof -
  have "cv_p c dvd (j mod cv_p c)^2 - ((i mod cv_p c)^3 + cv_a c * (i mod cv_p c) + cv_b c)"
    using assms(2) dvd_mod_diff[of "cv_p c" i] dvd_mod_diff[of "cv_p c" j]
    unfolding on_curve_def by algebra
  then show ?thesis using assms(1)
    by (simp add: mk_Point_def Let_def curve_check_iff)
qed

lemma valid_point_on_curve:
  assumes "valid_point P" "pt_x P = Some i" "pt_y P = Some j"
  shows "on_curve (pt_curve P) i j" "i mod cv_p (pt_curve P) = i" "j mod cv_p (pt_curve P) = j" "cv_p (pt_curve P) \<noteq> 0"
proof -
  from valid_point_affine[OF assms]
  have a: "cv_p (pt_curve P) \<noteq> 0" "i mod cv_p (pt_curve P) = i" "j mod cv_p (pt_curve P) = j"
    and e: "F_pow (cv_p (pt_curve P)) j 2 =
        (F_pow (cv_p (pt_curve P)) i 3 + F_mul (cv_p (pt_curve P)) (cv_a (pt_curve P)) i
          + cv_b (pt_curve P)) mod cv_p (pt_curve P)" by auto
  from e show "on_curve (pt_curve P) i j" by (simp add: on_curve_def curve_check_iff)
  show "i mod cv_p (pt_curve P) = i" "j mod cv_p (pt_curve P) = j" "cv_p (pt_curve P) \<noteq> 0" using a by auto
qed

lemma valid_point_mk:
  assumes "mk_Point c xo yo = Inr P"
  shows "valid_point P \<and> pt_curve P = c"
  using assms
  by (auto simp: mk_Point_def valid_point_def Let_def split: option.splits if_splits)


lemma chord_closed:
  fixes q :: int
  assumes "q dvd y1^2 - (x1^3 + a * x1 + b)"
    and "q dvd y2^2 - (x2^3 + a * x2 + b)"
    and "q dvd d * j - 1"
    and "q dvd d - (x2 - x1)"
    and "q dvd nu - (y2 - y1)"
    and "q dvd s - nu * j"
    and "q dvd x3 - (s^2 - x1 - x2)"
    and "q dvd y3 - (s * (x1 - x3) - y1)"
  shows "q dvd y3^2 - (x3^3 + a * x3 + b)"
  using assms by algebra

lemma inverse_transfer:
  fixes q :: int
  assumes "q dvd d * j - 1" "q dvd d - e"
  shows "q dvd e * j - 1"
  using assms by algebra

lemma slope_transfer:
  fixes q :: int
  assumes "q dvd s - nu * j" "q dvd nu - e"
  shows "q dvd s - e * j"
  using assms by algebra

lemma tangent_closed:
  fixes q :: int
  assumes "q dvd y1^2 - (x1^3 + a * x1 + b)"
    and "q dvd (2 * y1) * j - 1"
    and "q dvd s - (3 * x1^2 + a) * j"
    and "q dvd x3 - (s^2 - x1 - x1)"
    and "q dvd y3 - (s * (x1 - x3) - y1)"
  shows "q dvd y3^2 - (x3^3 + a * x3 + b)"
  using assms by algebra

lemma add_affine_result:
  assumes vP: "valid_point P" and vQ: "valid_point Q" and c: "pt_curve Q = pt_curve P"
    and pr: "is_prime (cv_p (pt_curve P))" and od: "odd (cv_p (pt_curve P))"
    and P: "pt_x P = Some x1" "pt_y P = Some y1"
    and Q: "pt_x Q = Some x2" "pt_y Q = Some y2"
    and ne: "\<not> (x1 = x2 \<and> (y1 \<noteq> y2 \<or> y1 = 0))"
  shows "\<exists>x3 y3. add P Q = Inr \<lparr>pt_curve = pt_curve P, pt_x = Some x3, pt_y = Some y3\<rparr>
           \<and> valid_point \<lparr>pt_curve = pt_curve P, pt_x = Some x3, pt_y = Some y3\<rparr>"
proof -
  let ?c = "pt_curve P"
  let ?q = "cv_p ?c"
  let ?a = "cv_a ?c"
  let ?b = "cv_b ?c"
  have q0: "?q \<noteq> 0" using od by auto
  have nP: "\<not> is_infinity P" and nQ: "\<not> is_infinity Q" using P Q by (auto simp: is_infinity_def)
  have E1: "?q dvd y1^2 - (x1^3 + ?a * x1 + ?b)" and r1: "x1 mod ?q = x1" "y1 mod ?q = y1"
    using valid_point_on_curve[OF vP P] by (auto simp: on_curve_def)
  have E2: "?q dvd y2^2 - (x2^3 + ?a * x2 + ?b)" and r2: "x2 mod ?q = x2" "y2 mod ?q = y2"
    using valid_point_on_curve[OF vQ Q] c by (auto simp: on_curve_def)
  show ?thesis
  proof (cases "x1 = x2 \<and> y1 = y2")
    case True
    then have y0: "y1 \<noteq> 0" using ne by auto
    have dn: "F_mul ?q 2 y1 mod ?q \<noteq> 0" using double_denominator[OF od r1(2) y0] .
    let ?nu = "F_add ?q (F_mul ?q 3 (F_pow ?q x1 2)) ?a"
    from F_div_prime[OF pr dn, of ?nu] obtain j where
      j: "F_div ?q ?nu (F_mul ?q 2 y1) = Inr ((?nu * j) mod ?q)" "?q dvd F_mul ?q 2 y1 * j - 1"
      by auto
    define s where "s = (?nu * j) mod ?q"
    define x3 where "x3 = F_sub ?q (F_sub ?q (F_pow ?q s 2) x1) x2"
    define y3 where "y3 = F_sub ?q (F_mul ?q s (F_sub ?q x1 x3)) y1"
    have j2: "?q dvd (2 * y1) * j - 1"
      using inverse_transfer[OF j(2), of "2 * y1"] by (simp add: F_mul_def dvd_mod_diff)
    have nu: "?q dvd ?nu - (3 * x1^2 + ?a)"
      by (simp add: F_add_def F_mul_def F_pow_def mod_simps dvd_mod_diff)
    have s1: "?q dvd s - ?nu * j" by (simp add: s_def dvd_mod_diff)
    have s2: "?q dvd s - (3 * x1^2 + ?a) * j" using slope_transfer[OF s1 nu] .
    have x3: "?q dvd x3 - (s^2 - x1 - x1)"
      using True by (simp add: x3_def F_sub_def F_pow_def mod_simps dvd_mod_diff)
    have y3: "?q dvd y3 - (s * (x1 - x3) - y1)"
      by (simp add: y3_def F_sub_def F_mul_def mod_simps dvd_mod_diff)
    have oc: "on_curve ?c x3 y3" unfolding on_curve_def
      using tangent_closed[OF E1 j2 s2 x3 y3] .
    have red: "x3 mod ?q = x3" "y3 mod ?q = y3" by (simp_all add: x3_def y3_def F_sub_def)
    have mk: "mk_Point ?c (Some x3) (Some y3) = Inr \<lparr>pt_curve = ?c, pt_x = Some x3, pt_y = Some y3\<rparr>"
      using mk_Point_on_curve[OF q0 oc] red by simp
    have "add P Q = mk_Point ?c (Some x3) (Some y3)"
      using c nP nQ P Q ne True q0 j(1)
      by (simp add: add_def Let_def s_def x3_def y3_def)
    then show ?thesis using mk valid_point_mk[OF mk] by auto
  next
    case False
    then have xne: "x1 \<noteq> x2" using ne by auto
    have dn: "F_sub ?q x2 x1 mod ?q \<noteq> 0" using chord_denominator[OF r1(1) r2(1) xne] .
    let ?nu = "F_sub ?q y2 y1"
    from F_div_prime[OF pr dn, of ?nu] obtain j where
      j: "F_div ?q ?nu (F_sub ?q x2 x1) = Inr ((?nu * j) mod ?q)" "?q dvd F_sub ?q x2 x1 * j - 1"
      by auto
    define s where "s = (?nu * j) mod ?q"
    define x3 where "x3 = F_sub ?q (F_sub ?q (F_pow ?q s 2) x1) x2"
    define y3 where "y3 = F_sub ?q (F_mul ?q s (F_sub ?q x1 x3)) y1"
    have d: "?q dvd F_sub ?q x2 x1 - (x2 - x1)" by (simp add: F_sub_def dvd_mod_diff)
    have nu: "?q dvd ?nu - (y2 - y1)" by (simp add: F_sub_def dvd_mod_diff)
    have s1: "?q dvd s - ?nu * j" by (simp add: s_def dvd_mod_diff)
    have x3: "?q dvd x3 - (s^2 - x1 - x2)"
      by (simp add: x3_def F_sub_def F_pow_def mod_simps dvd_mod_diff)
    have y3: "?q dvd y3 - (s * (x1 - x3) - y1)"
      by (simp add: y3_def F_sub_def F_mul_def mod_simps dvd_mod_diff)
    have oc: "on_curve ?c x3 y3" unfolding on_curve_def
      using chord_closed[OF E1 E2 j(2) d nu s1 x3 y3] .
    have red: "x3 mod ?q = x3" "y3 mod ?q = y3" by (simp_all add: x3_def y3_def F_sub_def)
    have mk: "mk_Point ?c (Some x3) (Some y3) = Inr \<lparr>pt_curve = ?c, pt_x = Some x3, pt_y = Some y3\<rparr>"
      using mk_Point_on_curve[OF q0 oc] red by simp
    have "add P Q = mk_Point ?c (Some x3) (Some y3)"
      using c nP nQ P Q ne False q0 j(1)
      by (simp add: add_def Let_def s_def x3_def y3_def)
    then show ?thesis using mk valid_point_mk[OF mk] by auto
  qed
qed

lemma valid_infinity: "valid_point (infinity c)" "pt_curve (infinity c) = c" "is_infinity (infinity c)"
  by (simp_all add: valid_point_def infinity_def mk_Point_def is_infinity_def)

lemma add_closed:
  assumes "valid_point P" "valid_point Q" "pt_curve Q = pt_curve P" "good_field (pt_curve P)"
  shows "\<exists>R. add P Q = Inr R \<and> valid_point R \<and> pt_curve R = pt_curve P"
proof (cases "is_infinity P \<or> is_infinity Q")
  case True
  then show ?thesis using assms by (auto simp: add_def)
next
  case False
  then have nP: "\<not> is_infinity P" and nQ: "\<not> is_infinity Q" by auto
  from assms(1) nP obtain x1 y1 where P: "pt_x P = Some x1" "pt_y P = Some y1"
    by (rule valid_point_cases)
  from assms(2) nQ obtain x2 y2 where Q: "pt_x Q = Some x2" "pt_y Q = Some y2"
    by (rule valid_point_cases)
  show ?thesis
  proof (cases "x1 = x2 \<and> (y1 \<noteq> y2 \<or> y1 = 0)")
    case True
    then have "add P Q = Inr (infinity (pt_curve P))"
      using assms(3) nP nQ P Q by (simp add: add_def)
    then show ?thesis using valid_infinity by simp
  next
    case False
    from add_affine_result[OF assms(1,2,3) _ _ P Q False] assms(4)
    show ?thesis by (auto simp: good_field_def)
  qed
qed

lemma double_closed:
  assumes "valid_point P" "good_field (pt_curve P)"
  shows "\<exists>R. double P = Inr R \<and> valid_point R \<and> pt_curve R = pt_curve P"
  unfolding double_def using add_closed[OF assms(1) assms(1) _ assms(2)] by simp

lemma neg_closed:
  assumes "valid_point P" "cv_p (pt_curve P) \<noteq> 0"
  shows "\<exists>R. neg P = Inr R \<and> valid_point R \<and> pt_curve R = pt_curve P
           \<and> (is_infinity R \<longleftrightarrow> is_infinity P)"
proof (cases "is_infinity P")
  case True
  then show ?thesis using assms by (simp add: neg_def)
next
  case False
  from assms(1) False obtain i j where P: "pt_x P = Some i" "pt_y P = Some j"
    by (rule valid_point_cases)
  let ?q = "cv_p (pt_curve P)"
  have oc: "on_curve (pt_curve P) i j" and r: "i mod ?q = i"
    using valid_point_on_curve[OF assms(1) P] by auto
  have "?q dvd (F_neg ?q j)^2 - j^2"
    using dvd_mod_diff[of ?q "- j"] unfolding F_neg_def by algebra
  then have oc': "on_curve (pt_curve P) i (F_neg ?q j)"
    using oc unfolding on_curve_def by algebra
  have mk: "mk_Point (pt_curve P) (Some i) (Some (F_neg ?q j))
      = Inr \<lparr>pt_curve = pt_curve P, pt_x = Some i, pt_y = Some (F_neg ?q j)\<rparr>"
    using mk_Point_on_curve[OF assms(2) oc'] r by (simp add: F_neg_def)
  have "neg P = mk_Point (pt_curve P) (Some i) (Some (F_neg ?q j))"
    using False P assms(2) by (simp add: neg_def)
  then show ?thesis using mk valid_point_mk[OF mk] False by (auto simp: is_infinity_def)
qed

lemma scalar_loop_closed:
  assumes "good_field (pt_curve base)"
  shows "valid_point Q \<Longrightarrow> valid_point base \<Longrightarrow> pt_curve Q = pt_curve base \<Longrightarrow>
     \<exists>R. scalar_loop k Q base = Inr R \<and> valid_point R \<and> pt_curve R = pt_curve base"
  using assms
proof (induction k Q base rule: scalar_loop.induct)
  case (1 k Q base)
  show ?case
  proof (cases "k \<le> 0")
    case True
    then show ?thesis using 1(2,4) by (subst scalar_loop.simps) simp
  next
    case False
    obtain Q' where Q': "(if odd k then add Q base else Inr Q) = Inr Q'"
       "valid_point Q'" "pt_curve Q' = pt_curve base"
      using add_closed[OF 1(2) 1(3)] 1(2,4,5) by (cases "odd k") auto
    obtain base' where b': "double base = Inr base'" "valid_point base'" "pt_curve base' = pt_curve base"
      using double_closed[OF 1(3) 1(5)] by auto
    have "\<exists>R. scalar_loop (k div 2) Q' base' = Inr R \<and> valid_point R \<and> pt_curve R = pt_curve base'"
      using 1(1)[OF False Q'(1) b'(1) Q'(2) b'(2)] Q'(3) b'(3) 1(5) by simp
    then show ?thesis using False Q'(1) b'(1) b'(3)
      by (subst scalar_loop.simps) simp
  qed
qed

lemma scalar_mult_closed:
  assumes "valid_point P" "good_field (pt_curve P)" "cv_n (pt_curve P) \<noteq> 0"
  shows "\<exists>R. scalar_mult k P = Inr R \<and> valid_point R \<and> pt_curve R = pt_curve P"
proof -
  have q0: "cv_p (pt_curve P) \<noteq> 0" using assms(2) by (auto simp: good_field_def)
  have pos: "\<And>k P. valid_point P \<Longrightarrow> good_field (pt_curve P) \<Longrightarrow> cv_n (pt_curve P) \<noteq> 0 \<Longrightarrow> \<not> k < 0 \<Longrightarrow>
     \<exists>R. scalar_mult k P = Inr R \<and> valid_point R \<and> pt_curve R = pt_curve P"
  proof -
    fix k P assume a: "valid_point P" "good_field (pt_curve P)" "cv_n (pt_curve P) \<noteq> 0" "\<not> k < (0::int)"
    show "\<exists>R. scalar_mult k P = Inr R \<and> valid_point R \<and> pt_curve R = pt_curve P"
    proof (cases "k mod cv_n (pt_curve P) = 0 \<or> is_infinity P")
      case True
      then show ?thesis using a(3) valid_infinity by (subst scalar_mult.simps) auto
    next
      case False
      have "scalar_mult k P = scalar_loop k (infinity (pt_curve P)) P"
        using False a(3,4) by (subst scalar_mult.simps) auto
      then show ?thesis
        using scalar_loop_closed[OF a(2) valid_infinity(1) a(1), where k = k] valid_infinity(2) by simp
    qed
  qed
  show ?thesis
  proof (cases "k < 0 \<and> \<not> (k mod cv_n (pt_curve P) = 0 \<or> is_infinity P)")
    case False
    show ?thesis
    proof (cases "k < 0")
      case True
      then have "k mod cv_n (pt_curve P) = 0 \<or> is_infinity P" using False by simp
      then show ?thesis using assms(3) valid_infinity by (subst scalar_mult.simps) auto
    next
      case False
      then show ?thesis using pos[OF assms] by simp
    qed
  next
    case True
    obtain P' where P': "neg P = Inr P'" "valid_point P'" "pt_curve P' = pt_curve P"
      using neg_closed[OF assms(1) q0] by auto
    have "scalar_mult k P = scalar_mult (- k) P'"
      using True assms(3) P'(1) by (subst scalar_mult.simps) auto
    moreover have "\<exists>R. scalar_mult (- k) P' = Inr R \<and> valid_point R \<and> pt_curve R = pt_curve P'"
      using pos[of P' "- k"] P' assms True by simp
    ultimately show ?thesis using P'(3) by simp
  qed
qed

lemma py_pow_inv_prime:
  assumes "is_prime m" "i mod m \<noteq> 0"
  shows "\<exists>w. py_pow_inv i m = Inr w \<and> 0 \<le> w \<and> w < m \<and> (i * w) mod m = 1"
proof -
  have m: "2 \<le> m" using assms(1) by (simp add: is_prime_def)
  let ?pr = "\<lambda>x. (i * x - 1) mod \<bar>m\<bar> = 0"
  define w0 where "w0 = i ^ nat (m - 2) mod m"
  have "(i * i ^ nat (m - 2)) mod m = 1" using assms by (rule fermat_int)
  then have "(i * w0) mod m = 1 mod m" using m by (simp add: w0_def mod_simps)
  then have "m dvd i * w0 - 1" by (simp only: mod_eq_dvd_iff)
  then have "?pr w0" using m by (simp add: dvd_eq_mod_eq_0)
  moreover have "w0 \<in> set [0..\<bar>m\<bar> - 1]" using m by (simp add: w0_def)
  ultimately have "find ?pr [0..\<bar>m\<bar> - 1] \<noteq> None" by (auto simp: find_None_iff)
  then obtain w where w: "find ?pr [0..\<bar>m\<bar> - 1] = Some w" by auto
  then have pw: "?pr w" and "w \<in> set [0..\<bar>m\<bar> - 1]"
    by (auto simp: find_Some_iff)
  then have rng: "0 \<le> w" "w < m" using m by auto
  have "m dvd i * w - 1" using pw m by (simp add: dvd_eq_mod_eq_0)
  then have "(i * w) mod m = 1 mod m" by (simp add: mod_eq_dvd_iff)
  then have "(i * w) mod m = 1" using m by simp
  moreover have "py_pow_inv i m = Inr w" using w m rng by (simp add: py_pow_inv_def)
  ultimately show ?thesis using rng by auto
qed

section \<open>Totality of \<open>verify\<close>\<close>

text \<open>
  C6, as stated, fails for a base point of composite order: on \<open>ord4_curve\<close>, with the
  public point \<open>G\<close> and the pair \<open>(1, 2)\<close>, both components are in \<open>[1, 4)\<close> and
  \<open>pow(2, -1, 4)\<close> raises.
\<close>

theorem verify_raises_composite_order:
  "valid_point ord4_G \<and> G (pt_curve ord4_G) = Inr ord4_G
   \<and> verify (const_sh 3) ord4_G [] (1, 2) = Inl ValueError"
  by code_simp

lemma scalar_mult_one:
  assumes "good_field (pt_curve g)" "valid_point g" "\<not> is_infinity g" "1 < cv_n (pt_curve g)"
  shows "scalar_mult 1 g = Inr g"
proof -
  obtain b' where b': "double g = Inr b'" using double_closed[OF assms(2,1)] by auto
  have l0: "scalar_loop 0 g b' = Inr g" by (subst scalar_loop.simps) simp
  have "scalar_loop 1 (infinity (pt_curve g)) g = Inr g"
    using b' l0 valid_infinity
    by (subst scalar_loop.simps) (simp add: add_def)
  then show ?thesis using assms(3,4) by (subst scalar_mult.simps) simp
qed

text \<open>
  C6, amended: on a curve over a field of odd prime order whose base point lies on the
  curve and has a prime order \<open>n\<close>, \<open>verify\<close> returns a boolean for every valid public
  point, every message and every pair \<open>(r, s)\<close>: \<open>False\<close> when \<open>r\<close> or \<open>s\<close> is outside
  \<open>[1, n)\<close>; otherwise the inverse and the point \<open>R = u1 G + u2 pub\<close> are computed without
  error and the result is \<open>True\<close> exactly when \<open>R\<close> is not infinity and its x-coordinate
  is \<open>r\<close> modulo \<open>n\<close>.
\<close>

theorem verify_total:
  assumes "good_field (pt_curve pub)" "is_prime (cv_n (pt_curve pub))"
    and "G (pt_curve pub) = Inr g" and "valid_point pub"
  shows "(\<not> (1 \<le> r \<and> r < cv_n (pt_curve pub) \<and> 1 \<le> s \<and> s < cv_n (pt_curve pub))
            \<longrightarrow> verify sh pub msg (r, s) = Inr False)
       \<and> (1 \<le> r \<and> r < cv_n (pt_curve pub) \<and> 1 \<le> s \<and> s < cv_n (pt_curve pub)
            \<longrightarrow> (\<exists>w A B R.
                  py_pow_inv s (cv_n (pt_curve pub)) = Inr w
                \<and> scalar_mult ((from_bytes (sh msg) mod cv_n (pt_curve pub) * w) mod cv_n (pt_curve pub)) g = Inr A
                \<and> scalar_mult ((r * w) mod cv_n (pt_curve pub)) pub = Inr B
                \<and> add A B = Inr R
                \<and> verify sh pub msg (r, s)
                    = Inr (\<not> is_infinity R \<and> (\<exists>i. pt_x R = Some i \<and> i mod cv_n (pt_curve pub) = r))))"
proof (intro conjI impI)
  assume "\<not> (1 \<le> r \<and> r < cv_n (pt_curve pub) \<and> 1 \<le> s \<and> s < cv_n (pt_curve pub))"
  then show "verify sh pub msg (r, s) = Inr False" by (auto simp: verify_def)
next
  let ?c = "pt_curve pub"
  let ?n = "cv_n ?c"
  let ?e = "from_bytes (sh msg) mod ?n"
  assume rng: "1 \<le> r \<and> r < ?n \<and> 1 \<le> s \<and> s < ?n"
  have n0: "?n \<noteq> 0" using rng by auto
  have "s mod ?n \<noteq> 0" using rng by simp
  from py_pow_inv_prime[OF assms(2) this] obtain w where w: "py_pow_inv s ?n = Inr w" by auto
  have g: "valid_point g" "pt_curve g = ?c" using valid_point_mk[OF assms(3)[unfolded G_def]] by auto
  obtain A where A: "scalar_mult ((?e * w) mod ?n) g = Inr A" "valid_point A" "pt_curve A = ?c"
    using scalar_mult_closed[OF g(1), of "(?e * w) mod ?n"] g(2) assms(1) n0 by auto
  obtain B where B: "scalar_mult ((r * w) mod ?n) pub = Inr B" "valid_point B" "pt_curve B = ?c"
    using scalar_mult_closed[OF assms(4) assms(1) n0, of "(r * w) mod ?n"] by auto
  obtain R where R: "add A B = Inr R" "valid_point R"
    using add_closed[OF A(2) B(2)] A(3) B(3) assms(1) by auto
  have "verify sh pub msg (r, s) = Inr (\<not> is_infinity R \<and> (\<exists>i. pt_x R = Some i \<and> i mod ?n = r))"
  proof (cases "is_infinity R")
    case True
    then show ?thesis using rng w assms(3) A(1) B(1) R(1) by (simp add: verify_def Let_def)
  next
    case False
    from R(2) False obtain i j where "pt_x R = Some i" "pt_y R = Some j" by (rule valid_point_cases)
    then show ?thesis using False rng w assms(3) A(1) B(1) R(1) by (simp add: verify_def Let_def)
  qed
  then show "\<exists>w A B R.
                  py_pow_inv s ?n = Inr w
                \<and> scalar_mult ((?e * w) mod ?n) g = Inr A
                \<and> scalar_mult ((r * w) mod ?n) pub = Inr B
                \<and> add A B = Inr R
                \<and> verify sh pub msg (r, s)
                    = Inr (\<not> is_infinity R \<and> (\<exists>i. pt_x R = Some i \<and> i mod ?n = r))"
    using w A(1) B(1) R(1) by blast
qed

theorem verify_total_witness:
  "good_field (pt_curve (toy13_pt 11 5)) \<and> is_prime (cv_n (pt_curve (toy13_pt 11 5)))
   \<and> G (pt_curve (toy13_pt 11 5)) = Inr (toy13_pt 8 5) \<and> valid_point (toy13_pt 11 5)
   \<and> (1::int) \<le> 1 \<and> 1 < cv_n (pt_curve (toy13_pt 11 5))
   \<and> (1::int) \<le> 3 \<and> 3 < cv_n (pt_curve (toy13_pt 11 5))
   \<and> (\<exists>v. verify (const_sh 3) (toy13_pt 11 5) [] (1, 3) = Inr v)"
proof -
  have h1: "good_field (pt_curve (toy13_pt 11 5))" by code_simp
  have h2: "is_prime (cv_n (pt_curve (toy13_pt 11 5)))" by code_simp
  have h3: "G (pt_curve (toy13_pt 11 5)) = Inr (toy13_pt 8 5)" by code_simp
  have h4: "valid_point (toy13_pt 11 5)" by code_simp
  have h5: "(1::int) \<le> 1 \<and> 1 < cv_n (pt_curve (toy13_pt 11 5))
      \<and> (1::int) \<le> 3 \<and> 3 < cv_n (pt_curve (toy13_pt 11 5))" by code_simp
  show ?thesis
    using h1 h2 h3 h4 h5 verify_total[OF h1 h2 h3 h4, of 1 3 "const_sh 3" "[]"] by auto
qed

section \<open>Verification with the point at infinity as public key\<close>

text \<open>
  C10: \<open>verify\<close> does not reject the point at infinity as public point.  On a curve
  over a field of odd prime order with a base point of prime order \<open>n\<close>, take a message
  whose reduced digest \<open>e\<close> is nonzero, \<open>s = e\<close> and \<open>r\<close> the x-coordinate of the base point
  modulo \<open>n\<close> (the coordinate as the constructor reduces it; \<open>Gx mod n\<close> for \<open>Gx\<close> in
  \<open>[0, p)\<close>), provided \<open>r\<close> is nonzero.  Then \<open>u1 = 1\<close>, the term \<open>u2 \<cdot> pub\<close> is infinity,
  and \<open>verify\<close> returns \<open>True\<close>.
\<close>

theorem verify_accepts_infinity_pub:
  assumes "good_field c" "is_prime (cv_n c)" "G c = Inr g"
    and "from_bytes (sh msg) mod cv_n c \<noteq> 0"
    and "cv_Gx c mod cv_p c mod cv_n c \<noteq> 0"
  shows "verify sh (infinity c) msg (cv_Gx c mod cv_p c mod cv_n c, from_bytes (sh msg) mod cv_n c) = Inr True"
proof -
  let ?n = "cv_n c"
  let ?e = "from_bytes (sh msg) mod ?n"
  let ?r = "cv_Gx c mod cv_p c mod ?n"
  have n2: "2 \<le> ?n" using assms(2) by (simp add: is_prime_def)
  have q0: "cv_p c \<noteq> 0" using assms(1) by (auto simp: good_field_def)
  have rng: "1 \<le> ?r \<and> ?r < ?n \<and> 1 \<le> ?e \<and> ?e < ?n"
    using n2 assms(4,5) by (smt (verit) pos_mod_bound pos_mod_sign)
  have "?e mod ?n \<noteq> 0" using assms(4) by simp
  from py_pow_inv_prime[OF assms(2) this] obtain w where
    w: "py_pow_inv ?e ?n = Inr w" "(?e * w) mod ?n = 1" by auto
  have g: "valid_point g" "pt_curve g = c" using valid_point_mk[OF assms(3)[unfolded G_def]] by auto
  have gx: "pt_x g = Some (cv_Gx c mod cv_p c)" "\<not> is_infinity g"
    using assms(3) q0 by (auto simp: G_def mk_Point_def Let_def is_infinity_def split: if_splits)
  have A: "scalar_mult 1 g = Inr g"
    using scalar_mult_one[of g] g assms(1) gx(2) n2 by simp
  have B: "scalar_mult ((?r * w) mod ?n) (infinity c) = Inr (infinity c)"
    using n2 valid_infinity by (subst scalar_mult.simps) simp
  have R: "add g (infinity c) = Inr g"
    using g(2) gx(2) valid_infinity by (simp add: add_def)
  show ?thesis
    using rng w assms(3) A B R gx valid_infinity(2)
    by (simp add: verify_def Let_def)
qed

theorem verify_accepts_infinity_pub_witness:
  "good_field toy13 \<and> is_prime (cv_n toy13) \<and> G toy13 = Inr (toy13_pt 8 5)
   \<and> from_bytes (const_sh 3 []) mod cv_n toy13 \<noteq> 0
   \<and> cv_Gx toy13 mod cv_p toy13 mod cv_n toy13 \<noteq> 0
   \<and> verify (const_sh 3) (infinity toy13) []
        (cv_Gx toy13 mod cv_p toy13 mod cv_n toy13, from_bytes (const_sh 3 []) mod cv_n toy13)
       = Inr True"
proof -
  have h1: "good_field toy13" by code_simp
  have h2: "is_prime (cv_n toy13)" by code_simp
  have h3: "G toy13 = Inr (toy13_pt 8 5)" by code_simp
  have h4: "from_bytes (const_sh 3 []) mod cv_n toy13 \<noteq> 0" by code_simp
  have h5: "cv_Gx toy13 mod cv_p toy13 mod cv_n toy13 \<noteq> 0" by code_simp
  show ?thesis
    using h1 h2 h3 h4 h5
      verify_accepts_infinity_pub[of toy13 "toy13_pt 8 5" "const_sh 3" "[]", OF h1 h2 h3 h4 h5]
    by simp
qed


section \<open>Congruences\<close>

lemma cg_refl: "cg q i i" by (simp add: cg_def)
lemma cg_sym: "cg q i j \<Longrightarrow> cg q j i" unfolding cg_def by algebra
lemma cg_trans: "cg q i j \<Longrightarrow> cg q j k \<Longrightarrow> cg q i k" unfolding cg_def by algebra
lemma cg_add: "cg q i i' \<Longrightarrow> cg q j j' \<Longrightarrow> cg q (i + j) (i' + j')" unfolding cg_def by algebra
lemma cg_diff: "cg q i i' \<Longrightarrow> cg q j j' \<Longrightarrow> cg q (i - j) (i' - j')" unfolding cg_def by algebra
lemma cg_uminus: "cg q i i' \<Longrightarrow> cg q (- i) (- i')" unfolding cg_def by algebra
lemma cg_mult: "cg q i i' \<Longrightarrow> cg q j j' \<Longrightarrow> cg q (i * j) (i' * j')" unfolding cg_def by algebra
lemma cg_power: "cg q i i' \<Longrightarrow> cg q (i ^ n) (i' ^ n)"
  by (induction n) (auto intro: cg_mult cg_refl)
lemma cg_mod: "cg q (i mod q) i"
  by (simp add: cg_def mod_eq_dvd_iff[symmetric])
lemma cg_mod2: "cg q i (i mod q)"
  by (rule cg_sym[OF cg_mod])
lemma cg_zero_iff: "cg q i 0 \<longleftrightarrow> q dvd i" by (simp add: cg_def)
lemma cg_dvd: "cg q i j \<Longrightarrow> q dvd i \<Longrightarrow> q dvd j"
  unfolding cg_def by algebra
lemma cg_reduced_eq:
  assumes "cg q i j" "0 \<le> i" "i < q" "0 \<le> j" "j < q"
  shows "i = j"
proof -
  have "i mod q = j mod q" using assms(1) by (simp add: cg_def mod_eq_dvd_iff)
  then show ?thesis using assms by simp
qed
lemmas cg_intros = cg_add cg_diff cg_mult cg_power cg_uminus

section \<open>Basic facts on residue points\<close>

lemma ec_ok_prime: "ec_ok q a b \<Longrightarrow> is_prime q" by (simp add: ec_ok_def)
lemma ec_ok_pos: "ec_ok q a b \<Longrightarrow> 0 < q" by (simp add: ec_ok_def is_prime_def)

lemma ec_ok_odd: assumes "ec_ok q a b" shows "\<not> q dvd 2"
proof
  assume "q dvd 2"
  then have "q \<le> 2" by (rule zdvd_imp_le) simp
  then show False using assms by (simp add: ec_ok_def is_prime_def)
qed

lemma rinv_inverse:
  assumes "is_prime q" "\<not> q dvd d"
  shows "cg q (d * rinv q d) 1"
proof -
  have "d mod q \<noteq> 0" using assms(2) by (simp add: dvd_eq_mod_eq_0)
  then have "(d * d ^ nat (q - 2)) mod q = 1" by (rule fermat_int[OF assms(1)])
  moreover have "1 < q" using assms(1) by (simp add: is_prime_def)
  ultimately have "(d * d ^ nat (q - 2)) mod q = 1 mod q" by simp
  then have "cg q (d * d ^ nat (q - 2)) 1" by (simp add: cg_def mod_eq_dvd_iff)
  moreover have "cg q (d * rinv q d) (d * d ^ nat (q - 2))"
    unfolding rinv_def by (intro cg_intros cg_refl cg_mod)
  ultimately show ?thesis using cg_trans by blast
qed

lemma prime_cancel:
  assumes "is_prime q" "\<not> q dvd d" "q dvd d * t"
  shows "q dvd t"
  using is_prime_dvd_mult[OF assms(1,3)] assms(2) by simp

lemma reduced_ne:
  fixes q :: int
  assumes "0 \<le> i" "i < q" "0 \<le> j" "j < q" "i \<noteq> j"
  shows "\<not> q dvd j - i"
proof
  assume "q dvd j - i"
  then have "cg q j i" by (simp add: cg_def)
  from cg_reduced_eq[OF this assms(3,4,1,2)] assms(5) show False by simp
qed

lemma reduced_nz:
  fixes q :: int
  assumes "0 \<le> i" "i < q" "i \<noteq> 0"
  shows "\<not> q dvd i"
  using assms zdvd_not_zless[of i q] by simp

lemma ron_RPt:
  "ron q a b (RPt x y) \<longleftrightarrow> 0 \<le> x \<and> x < q \<and> 0 \<le> y \<and> y < q \<and> q dvd y^2 - (x^3 + a * x + b)
     \<and> \<not> (y = 0 \<and> q dvd 3 * x^2 + a)"
  by (simp add: ron_def)

lemma ron_RInf [simp]: "ron q a b RInf" by (simp add: ron_def)

lemma radd_RInf [simp]: "radd q a RInf P = P" "radd q a P RInf = P"
  by (simp_all add: radd_def split: rpoint.splits)

lemma rneg_RInf [simp]: "rneg q RInf = RInf" by (simp add: rneg_def)

lemma rneg_RPt: "rneg q (RPt x y) = RPt x ((- y) mod q)" by (simp add: rneg_def)

lemma rneg_rneg:
  assumes "ron q a b P" shows "rneg q (rneg q P) = P"
proof (cases P)
  case RInf then show ?thesis by simp
next
  case (RPt x y)
  then have "0 \<le> y" "y < q" using assms by (simp_all add: ron_def)
  then have "(- ((- y) mod q)) mod q = y" by (simp add: mod_simps)
  then show ?thesis using RPt by (simp add: rneg_def)
qed

lemma rneg_closed:
  assumes "0 < q" "ron q a b P" shows "ron q a b (rneg q P)"
proof (cases P)
  case RInf then show ?thesis by simp
next
  case (RPt x y)
  then have r: "0 \<le> x" "x < q" "q dvd y^2 - (x^3 + a * x + b)" "0 \<le> y" "y < q"
    and ns: "\<not> (y = 0 \<and> q dvd 3 * x^2 + a)" using assms by (simp_all add: ron_def)
  have "cg q (((- y) mod q)^2 - (x^3 + a * x + b)) ((- y)^2 - (x^3 + a * x + b))"
    by (intro cg_intros cg_refl cg_mod)
  then have c: "q dvd ((- y) mod q)^2 - (x^3 + a * x + b)"
    using r(3) cg_dvd[OF cg_sym] by simp
  have "(- y) mod q = 0 \<Longrightarrow> y = 0"
  proof -
    assume "(- y) mod q = 0"
    then have "q dvd y" by (simp add: dvd_eq_mod_eq_0[symmetric])
    then show "y = 0" using r(4,5) zdvd_not_zless[of y q] by (cases "y = 0") auto
  qed
  then have "\<not> ((- y) mod q = 0 \<and> q dvd 3 * x^2 + a)" using ns by auto
  then show ?thesis using RPt r c assms(1) by (simp add: rneg_def ron_def)
qed

text \<open>Two points of the curve with the same abscissa are equal or opposite.\<close>

lemma same_x:
  assumes "is_prime q" "ron q a b (RPt x y1)" "ron q a b (RPt x y2)"
  shows "y2 = y1 \<or> y2 = (- y1) mod q"
proof -
  have r: "0 \<le> y1" "y1 < q" "0 \<le> y2" "y2 < q" using assms(2,3) by (simp_all add: ron_def)
  have "q dvd y1^2 - (x^3 + a * x + b)" "q dvd y2^2 - (x^3 + a * x + b)"
    using assms(2,3) by (simp_all add: ron_def)
  then have "q dvd (y2 - y1) * (y2 + y1)" by algebra
  then consider "q dvd y2 - y1" | "q dvd y2 + y1" using is_prime_dvd_mult[OF assms(1)] by blast
  then show ?thesis
  proof cases
    case 1
    then have "cg q y2 y1" by (simp add: cg_def)
    from cg_reduced_eq[OF this r(3,4,1,2)] show ?thesis by simp
  next
    case 2
    then have "cg q y2 (- y1)" by (simp add: cg_def)
    then have "cg q y2 ((- y1) mod q)" using cg_trans cg_mod2 by blast
    moreover have "0 \<le> (- y1) mod q" "(- y1) mod q < q" using r by simp_all
    ultimately show ?thesis using cg_reduced_eq r by blast
  qed
qed

section \<open>Cases of the addition\<close>

lemma dvd_cg: "q dvd i - j \<Longrightarrow> cg q i j" by (simp add: cg_def)
lemma cg_dvdD: "cg q i j \<Longrightarrow> q dvd i - j" by (simp add: cg_def)

lemma chord_on_curve:
  fixes q :: int
  assumes "q dvd y1^2 - (x1^3 + a * x1 + b)"
    and "q dvd y2^2 - (x2^3 + a * x2 + b)"
    and "q dvd (x2 - x1) * j - 1"
    and "q dvd l * (x2 - x1) - (y2 - y1)"
  shows "q dvd (l * (x1 - (l^2 - x1 - x2)) - y1)^2
           - ((l^2 - x1 - x2)^3 + a * (l^2 - x1 - x2) + b)"
  using assms by algebra

lemma tangent_on_curve:
  fixes q :: int
  assumes "q dvd y1^2 - (x1^3 + a * x1 + b)"
    and "q dvd l * (2 * y1) - (3 * x1^2 + a)"
  shows "q dvd (l * (x1 - (l^2 - x1 - x1)) - y1)^2
           - ((l^2 - x1 - x1)^3 + a * (l^2 - x1 - x1) + b)"
  using assms by algebra

lemma curve_cg:
  assumes "cg q x3 X" "cg q y3 Y" "q dvd Y^2 - (X^3 + a * X + b)"
  shows "q dvd y3^2 - (x3^3 + a * x3 + b)"
proof -
  have "cg q (Y^2 - (X^3 + a * X + b)) (y3^2 - (x3^3 + a * x3 + b))"
    by (intro cg_intros cg_refl cg_sym[OF assms(1)] cg_sym[OF assms(2)])
  from cg_dvd[OF this assms(3)] show ?thesis .
qed

lemma chord_ns:
  fixes q :: int
  assumes y2: "y2 = y1 + l * (x2 - x1)"
    and a: "a = l * (y1 + y2) - (x1^2 + x1 * x2 + x2^2)"
    and x3: "x3 = l^2 - x1 - x2"
    and Z: "q dvd l * (x1 - x3) - y1" and S: "q dvd 3 * x3^2 + a"
  shows "q dvd (x3 - x1) * (x3 - x2)"
  using Z S unfolding x3 a y2 by algebra

lemma tangent_ns:
  fixes q :: int
  assumes a: "a = m * (2 * y) - 3 * x^2"
    and x3: "x3 = m^2 - x - x"
    and Z: "q dvd m * (x - x3) - y" and S: "q dvd 3 * x3^2 + a"
  shows "q dvd (x3 - x) * (x3 - x)"
  using Z S unfolding x3 a by algebra

text \<open>A chord or a tangent through nonsingular points does not end in a singular point.\<close>

lemma chord_nonsingular:
  fixes q :: int
  assumes pr: "is_prime q"
    and E1: "q dvd y1^2 - (x1^3 + a * x1 + b)" and E2: "q dvd y2^2 - (x2^3 + a * x2 + b)"
    and L: "q dvd l * (x2 - x1) - (y2 - y1)" and X: "q dvd x3 - (l^2 - x1 - x2)"
    and Y: "q dvd y3 - (l * (x1 - x3) - y1)"
    and n12: "\<not> q dvd x2 - x1" and Z: "q dvd y3" and S: "q dvd 3 * x3^2 + a"
  shows "(q dvd x3 - x1 \<and> q dvd y1) \<or> (q dvd x3 - x2 \<and> q dvd y2)"
proof -
  define Y2 where "Y2 = y1 + l * (x2 - x1)"
  define A where "A = l * (y1 + Y2) - (x1^2 + x1 * x2 + x2^2)"
  define X3 where "X3 = l^2 - x1 - x2"
  have "q dvd (x2 - x1) * (a - (l * (y1 + (y1 + l * (x2 - x1))) - (x1^2 + x1 * x2 + x2^2)))"
    using E1 E2 L by algebra
  then have cA: "q dvd a - A" unfolding A_def Y2_def by (rule prime_cancel[OF pr n12])
  have cX: "q dvd x3 - X3" unfolding X3_def by (rule X)
  have Z': "q dvd l * (x1 - X3) - y1" using Y Z cX by algebra
  have S': "q dvd 3 * X3^2 + A" using S cA cX by algebra
  have "q dvd (X3 - x1) * (X3 - x2)" by (rule chord_ns[OF Y2_def A_def X3_def Z' S'])
  then have "q dvd (x3 - x1) * (x3 - x2)" using cX by algebra
  then consider "q dvd x3 - x1" | "q dvd x3 - x2" using is_prime_dvd_mult[OF pr] by blast
  then show ?thesis
  proof cases
    case 1
    moreover have "q dvd y1" using 1 Y Z by algebra
    ultimately show ?thesis by blast
  next
    case 2
    moreover have "q dvd y2" using 2 Y Z L by algebra
    ultimately show ?thesis by blast
  qed
qed

lemma tangent_nonsingular:
  fixes q :: int
  assumes pr: "is_prime q"
    and T: "q dvd m * (2 * y) - (3 * x^2 + a)" and X: "q dvd x3 - (m^2 - x - x)"
    and Y: "q dvd y3 - (m * (x - x3) - y)"
    and Z: "q dvd y3" and S: "q dvd 3 * x3^2 + a"
  shows "q dvd y"
proof -
  define A where "A = m * (2 * y) - 3 * x^2"
  define X3 where "X3 = m^2 - x - x"
  have cA: "q dvd a - A" unfolding A_def using T by algebra
  have cX: "q dvd x3 - X3" unfolding X3_def by (rule X)
  have Z': "q dvd m * (x - X3) - y" using Y Z cX by algebra
  have S': "q dvd 3 * X3^2 + A" using S cA cX by algebra
  have "q dvd (X3 - x) * (X3 - x)" by (rule tangent_ns[OF A_def X3_def Z' S'])
  then have "q dvd (x3 - x) * (x3 - x)" using cX by algebra
  then have "q dvd x3 - x" using is_prime_dvd_mult[OF pr] by blast
  then show ?thesis using Y Z by algebra
qed

lemma radd_cases [consumes 3, case_names ZeroL ZeroR Inverse Double Chord]:
  assumes ok: "ec_ok q a b" and P1: "ron q a b P1" and P2: "ron q a b P2"
  obtains
    (ZeroL) "P1 = RInf"
  | (ZeroR) "P1 \<noteq> RInf" "P2 = RInf"
  | (Inverse) x y where "P1 = RPt x y" "P2 = rneg q P1" "radd q a P1 P2 = RInf"
  | (Double) x y l x3 y3 where "P1 = RPt x y" "P2 = P1" "y \<noteq> 0" "P2 \<noteq> rneg q P1"
      "tangent q a x y l x3 y3" "radd q a P1 P2 = RPt x3 y3" "ron q a b (RPt x3 y3)"
  | (Chord) x1 y1 x2 y2 l x3 y3 where "P1 = RPt x1 y1" "P2 = RPt x2 y2" "x1 \<noteq> x2"
      "chord q x1 y1 x2 y2 l x3 y3" "radd q a P1 P2 = RPt x3 y3" "ron q a b (RPt x3 y3)"
proof (cases P1)
  case RInf
  then show ?thesis using ZeroL by simp
next
  case p1: (RPt x1 y1)
  show ?thesis
  proof (cases P2)
    case RInf
    then show ?thesis using ZeroR p1 by simp
  next
    case p2: (RPt x2 y2)
    have pr: "is_prime q" and q3: "0 < q" using ok by (simp_all add: ec_ok_def is_prime_def)
    have r1: "0 \<le> x1" "x1 < q" "0 \<le> y1" "y1 < q" and E1: "q dvd y1^2 - (x1^3 + a * x1 + b)"
      and ns1: "\<not> (y1 = 0 \<and> q dvd 3 * x1^2 + a)"
      using P1 p1 by (simp_all add: ron_def)
    have r2: "0 \<le> x2" "x2 < q" "0 \<le> y2" "y2 < q" and E2: "q dvd y2^2 - (x2^3 + a * x2 + b)"
      and ns2: "\<not> (y2 = 0 \<and> q dvd 3 * x2^2 + a)"
      using P2 p2 by (simp_all add: ron_def)
    show ?thesis
    proof (cases "x1 = x2")
      case True
      from same_x[OF pr] P1 P2 p1 p2 True have yy: "y2 = y1 \<or> y2 = (- y1) mod q" by blast
      show ?thesis
      proof (cases "y1 \<noteq> y2 \<or> y1 = 0")
        case True
        then have "y2 = (- y1) mod q" using yy r1 by auto
        then have "P2 = rneg q P1" using p1 p2 \<open>x1 = x2\<close> by (simp add: rneg_def)
        moreover have "radd q a P1 P2 = RInf" using True p1 p2 \<open>x1 = x2\<close> by (simp add: radd_def)
        ultimately show ?thesis using Inverse p1 by blast
      next
        case False
        then have y: "y1 = y2" "y1 \<noteq> 0" by auto
        define l where "l = (3 * x1^2 + a) * rinv q (2 * y1)"
        define x3 where "x3 = (l^2 - x1 - x2) mod q"
        define y3 where "y3 = (l * (x1 - x3) - y1) mod q"
        have res: "radd q a P1 P2 = RPt x3 y3"
          using p1 p2 \<open>x1 = x2\<close> False by (simp add: radd_def Let_def l_def x3_def y3_def)
        have ny: "\<not> q dvd y1" using reduced_nz[OF r1(3,4) y(2)] .
        have n2: "\<not> q dvd 2" using ec_ok_odd[OF ok] .
        have nd: "\<not> q dvd 2 * y1" using is_prime_dvd_mult[OF pr, of 2 y1] ny n2 by blast
        have "cg q ((2 * y1) * rinv q (2 * y1)) 1" using rinv_inverse[OF pr nd] .
        then have "cg q ((3 * x1^2 + a) * ((2 * y1) * rinv q (2 * y1))) ((3 * x1^2 + a) * 1)"
          by (intro cg_intros cg_refl)
        then have sl: "cg q (l * (2 * y1)) (3 * x1^2 + a)"
          by (simp add: l_def mult.assoc mult.left_commute mult.commute)
        have cx: "cg q x3 (l^2 - x1 - x1)" using \<open>x1 = x2\<close> by (simp add: x3_def cg_mod)
        have cy: "cg q y3 (l * (x1 - x3) - y1)" by (simp add: y3_def cg_mod)
        have tg: "tangent q a x1 y1 l x3 y3" using sl cx cy by (simp add: tangent_def)
        have "q dvd l * (2 * y1) - (3 * x1^2 + a)" using sl by (simp add: cg_def)
        from tangent_on_curve[OF E1 this]
        have cl: "q dvd (l * (x1 - (l^2 - x1 - x1)) - y1)^2
           - ((l^2 - x1 - x1)^3 + a * (l^2 - x1 - x1) + b)" .
        have cy': "cg q y3 (l * (x1 - (l^2 - x1 - x1)) - y1)"
          by (rule cg_trans[OF cy]) (intro cg_intros cg_refl cx)
        have on3: "q dvd y3^2 - (x3^3 + a * x3 + b)" using curve_cg[OF cx cy' cl] .
        have ns3: "\<not> (y3 = 0 \<and> q dvd 3 * x3^2 + a)"
        proof
          assume h: "y3 = 0 \<and> q dvd 3 * x3^2 + a"
          then have S: "q dvd 3 * x3^2 + a" and Z: "q dvd y3" by simp_all
          have "q dvd y1"
            by (rule tangent_nonsingular[OF pr cg_dvdD[OF sl] cg_dvdD[OF cx] cg_dvdD[OF cy] Z S])
          then show False using ny by simp
        qed
        have "0 < q" using q3 by simp
        then have on: "ron q a b (RPt x3 y3)" using on3 ns3 by (simp add: ron_def x3_def y3_def)
        have "P2 \<noteq> rneg q P1"
        proof
          assume "P2 = rneg q P1"
          then have "y1 = (- y1) mod q" using p1 p2 y by (simp add: rneg_def)
          then have "cg q y1 (- y1)" using cg_mod[of q "- y1"] by simp
          then have "q dvd 2 * y1" by (simp add: cg_def)
          then show False using nd by simp
        qed
        then show ?thesis using Double[OF p1 _ y(2) _ tg res on] p1 p2 \<open>x1 = x2\<close> y(1) by simp
      qed
    next
      case False
      define l where "l = (y2 - y1) * rinv q (x2 - x1)"
      define x3 where "x3 = (l^2 - x1 - x2) mod q"
      define y3 where "y3 = (l * (x1 - x3) - y1) mod q"
      have res: "radd q a P1 P2 = RPt x3 y3"
        using p1 p2 False by (simp add: radd_def Let_def l_def x3_def y3_def)
      have nd: "\<not> q dvd x2 - x1" using reduced_ne[OF r1(1,2) r2(1,2) False] .
      have inv: "cg q ((x2 - x1) * rinv q (x2 - x1)) 1" using rinv_inverse[OF pr nd] .
      then have "cg q ((y2 - y1) * ((x2 - x1) * rinv q (x2 - x1))) ((y2 - y1) * 1)"
        by (intro cg_intros cg_refl)
      then have sl: "cg q (l * (x2 - x1)) (y2 - y1)"
        by (simp add: l_def mult.assoc mult.left_commute mult.commute)
      have cx: "cg q x3 (l^2 - x1 - x2)" by (simp add: x3_def cg_mod)
      have cy: "cg q y3 (l * (x1 - x3) - y1)" by (simp add: y3_def cg_mod)
      have ch: "chord q x1 y1 x2 y2 l x3 y3" using sl cx cy by (simp add: chord_def)
      have i1: "q dvd (x2 - x1) * rinv q (x2 - x1) - 1" using inv by (simp add: cg_def)
      have i2: "q dvd l * (x2 - x1) - (y2 - y1)" using sl by (simp add: cg_def)
      from chord_on_curve[OF E1 E2 i1 i2]
      have cl: "q dvd (l * (x1 - (l^2 - x1 - x2)) - y1)^2
           - ((l^2 - x1 - x2)^3 + a * (l^2 - x1 - x2) + b)" .
      have cy': "cg q y3 (l * (x1 - (l^2 - x1 - x2)) - y1)"
        by (rule cg_trans[OF cy]) (intro cg_intros cg_refl cx)
      have on3: "q dvd y3^2 - (x3^3 + a * x3 + b)" using curve_cg[OF cx cy' cl] .
      have q0: "0 < q" using q3 by simp
      have r3: "0 \<le> x3" "x3 < q" using q0 by (simp_all add: x3_def)
      have ns3: "\<not> (y3 = 0 \<and> q dvd 3 * x3^2 + a)"
      proof
        assume h: "y3 = 0 \<and> q dvd 3 * x3^2 + a"
        then have S: "q dvd 3 * x3^2 + a" and Z: "q dvd y3" by simp_all
        from chord_nonsingular[OF pr E1 E2 i2 cg_dvdD[OF cx] cg_dvdD[OF cy] nd Z S]
        show False
        proof
          assume c: "q dvd x3 - x1 \<and> q dvd y1"
          then have "x3 = x1" using cg_reduced_eq[OF dvd_cg r3 r1(1,2)] by blast
          moreover have "y1 = 0" using c reduced_nz[OF r1(3,4)] by blast
          ultimately show False using ns1 S by simp
        next
          assume c: "q dvd x3 - x2 \<and> q dvd y2"
          then have "x3 = x2" using cg_reduced_eq[OF dvd_cg r3 r2(1,2)] by blast
          moreover have "y2 = 0" using c reduced_nz[OF r2(3,4)] by blast
          ultimately show False using ns2 S by simp
        qed
      qed
      have on: "ron q a b (RPt x3 y3)" using on3 ns3 q0 by (simp add: ron_def x3_def y3_def)
      show ?thesis using Chord[OF p1 p2 False ch res on] .
    qed
  qed
qed

lemma radd_closed:
  assumes "ec_ok q a b" "ron q a b P1" "ron q a b P2"
  shows "ron q a b (radd q a P1 P2)"
  using assms
proof (cases rule: radd_cases)
  case ZeroL then show ?thesis using assms by simp
next
  case ZeroR then show ?thesis using assms by simp
next
  case (Inverse x y) then show ?thesis by simp
next
  case (Double x y l x3 y3) then show ?thesis by simp
next
  case (Chord x1 y1 x2 y2 l x3 y3) then show ?thesis by simp
qed

section \<open>Commutativity and opposites\<close>

lemma slope_unique:
  assumes "is_prime q" "\<not> q dvd d" "cg q (l * d) n" "cg q (l' * d) n"
  shows "cg q l l'"
proof -
  have "q dvd d * (l - l')" using assms(3,4) unfolding cg_def by algebra
  from prime_cancel[OF assms(1,2) this] show ?thesis by (simp add: cg_def)
qed

lemma chordD:
  assumes "chord q x1 y1 x2 y2 l x3 y3"
  shows "q dvd l * (x2 - x1) - (y2 - y1)" "q dvd x3 - (l^2 - x1 - x2)"
    "q dvd y3 - (l * (x1 - x3) - y1)"
  using assms by (simp_all add: chord_def cg_def)

lemma chordI:
  assumes "q dvd l * (x2 - x1) - (y2 - y1)" "q dvd x3 - (l^2 - x1 - x2)"
    "q dvd y3 - (l * (x1 - x3) - y1)"
  shows "chord q x1 y1 x2 y2 l x3 y3"
  using assms by (simp add: chord_def cg_def)

lemma tangentD:
  assumes "tangent q a x1 y1 l x3 y3"
  shows "q dvd l * (2 * y1) - (3 * x1^2 + a)" "q dvd x3 - (l^2 - x1 - x1)"
    "q dvd y3 - (l * (x1 - x3) - y1)"
  using assms by (simp_all add: tangent_def cg_def)

lemma tangentI:
  assumes "q dvd l * (2 * y1) - (3 * x1^2 + a)" "q dvd x3 - (l^2 - x1 - x1)"
    "q dvd y3 - (l * (x1 - x3) - y1)"
  shows "tangent q a x1 y1 l x3 y3"
  using assms by (simp add: tangent_def cg_def)

lemma chord_sym:
  assumes "chord q x1 y1 x2 y2 l x3 y3"
  shows "chord q x2 y2 x1 y1 l x3 y3"
proof (rule chordI)
  note c = chordD[OF assms]
  show "q dvd l * (x1 - x2) - (y1 - y2)" using c(1) by algebra
  show "q dvd x3 - (l^2 - x2 - x1)" using c(2) by algebra
  show "q dvd y3 - (l * (x2 - x3) - y2)" using c(1,3) by algebra
qed

lemma ron_reduced:
  assumes "ron q a b (RPt x y)"
  shows "0 \<le> x" "x < q" "0 \<le> y" "y < q"
  using assms by (simp_all add: ron_def)

lemma ron_curve:
  assumes "ron q a b (RPt x y)"
  shows "q dvd y^2 - (x^3 + a * x + b)"
  using assms by (simp add: ron_def)

lemma ron_ns:
  assumes "ron q a b (RPt x y)"
  shows "\<not> (y = 0 \<and> q dvd 3 * x^2 + a)"
  using assms by (simp add: ron_def)

lemma radd_chord_eq:
  assumes ok: "ec_ok q a b" and P1: "ron q a b (RPt x1 y1)" and P2: "ron q a b (RPt x2 y2)"
    and ne: "x1 \<noteq> x2" and ch: "chord q x1 y1 x2 y2 l X Y"
    and red: "0 \<le> X" "X < q" "0 \<le> Y" "Y < q"
  shows "radd q a (RPt x1 y1) (RPt x2 y2) = RPt X Y"
  using ok P1 P2
proof (cases rule: radd_cases)
  case (Chord x1' y1' x2' y2' l' x3 y3)
  then have ch': "chord q x1 y1 x2 y2 l' x3 y3" by simp
  have nd: "\<not> q dvd x2 - x1"
    using reduced_ne[OF ron_reduced(1,2)[OF P1] ron_reduced(1,2)[OF P2] ne] .
  note c = chordD[OF ch] and c' = chordD[OF ch']
  have "cg q l l'"
    using slope_unique[OF ec_ok_prime[OF ok] nd, of l "y2 - y1" l'] c(1) c'(1) by (simp add: cg_def)
  then have ll: "q dvd l - l'" by (simp add: cg_def)
  have "q dvd X - x3" using ll c(2) c'(2) by algebra
  then have "cg q X x3" by (simp add: cg_def)
  then have x: "X = x3" using cg_reduced_eq red ron_reduced[OF Chord(6)] by blast
  have "q dvd Y - y3" using ll c(3) c'(3) unfolding x by algebra
  then have "cg q Y y3" by (simp add: cg_def)
  then have y: "Y = y3" using cg_reduced_eq red ron_reduced[OF Chord(6)] by blast
  show ?thesis using Chord(5) x y by simp
qed (use ne in \<open>simp_all add: rneg_def\<close>)

lemma two_nz:
  assumes ok: "ec_ok q a b" and "\<not> q dvd y"
  shows "\<not> q dvd 2 * y"
  using is_prime_dvd_mult[OF ec_ok_prime[OF ok], of 2 y] assms(2) ec_ok_odd[OF ok] by blast

lemma radd_tangent_eq:
  assumes ok: "ec_ok q a b" and P1: "ron q a b (RPt x y)"
    and ne: "y \<noteq> 0" and tg: "tangent q a x y l X Y"
    and red: "0 \<le> X" "X < q" "0 \<le> Y" "Y < q"
  shows "radd q a (RPt x y) (RPt x y) = RPt X Y"
  using ok P1 P1
proof (cases rule: radd_cases)
  case (Double x' y' l' x3 y3)
  then have tg': "tangent q a x y l' x3 y3" by simp
  have "\<not> q dvd y" using reduced_nz[OF ron_reduced(3,4)[OF P1] ne] .
  then have nd: "\<not> q dvd 2 * y" by (rule two_nz[OF ok])
  note c = tangentD[OF tg] and c' = tangentD[OF tg']
  have "cg q l l'"
    using slope_unique[OF ec_ok_prime[OF ok] nd, of l "3 * x^2 + a" l'] c(1) c'(1) by (simp add: cg_def)
  then have ll: "q dvd l - l'" by (simp add: cg_def)
  have "q dvd X - x3" using ll c(2) c'(2) by algebra
  then have "cg q X x3" by (simp add: cg_def)
  then have x: "X = x3" using cg_reduced_eq red ron_reduced[OF Double(7)] by blast
  have "q dvd Y - y3" using ll c(3) c'(3) unfolding x by algebra
  then have "cg q Y y3" by (simp add: cg_def)
  then have y: "Y = y3" using cg_reduced_eq red ron_reduced[OF Double(7)] by blast
  show ?thesis using Double(6) x y by simp
next
  case (Inverse x' y')
  then have "y = (- y) mod q" by (simp add: rneg_def)
  then have "cg q y (- y)" using cg_mod[of q "- y"] by simp
  then have "q dvd 2 * y" by (simp add: cg_def)
  moreover have "\<not> q dvd y" using reduced_nz[OF ron_reduced(3,4)[OF P1] ne] .
  ultimately show ?thesis using two_nz[OF ok] by blast
qed simp_all

text \<open>A point is its own opposite exactly when its ordinate is 0.\<close>

lemma rneg_self_iff:
  assumes ok: "ec_ok q a b" and P: "ron q a b (RPt x y)"
  shows "rneg q (RPt x y) = RPt x y \<longleftrightarrow> y = 0"
proof
  assume "rneg q (RPt x y) = RPt x y"
  then have "y = (- y) mod q" by (simp add: rneg_def)
  then have "cg q y (- y)" using cg_mod[of q "- y"] by simp
  then have "q dvd 2 * y" by (simp add: cg_def)
  then have "q dvd y" using two_nz[OF ok] by blast
  then show "y = 0" using reduced_nz[OF ron_reduced(3,4)[OF P]] by blast
next
  assume "y = 0" then show "rneg q (RPt x y) = RPt x y" by (simp add: rneg_def)
qed

lemma radd_rneg:
  assumes ok: "ec_ok q a b" and P: "ron q a b P"
  shows "radd q a P (rneg q P) = RInf"
proof (cases P)
  case RInf then show ?thesis by simp
next
  case (RPt x y)
  have "y \<noteq> (- y) mod q \<or> y = 0"
    using rneg_self_iff[OF ok P[unfolded RPt]] by (auto simp add: rneg_def)
  then show ?thesis using RPt by (auto simp add: radd_def rneg_def)
qed

lemma rneg_radd_self:
  assumes ok: "ec_ok q a b" and P: "ron q a b P"
  shows "radd q a (rneg q P) P = RInf"
  using radd_rneg[OF ok rneg_closed[OF _ P]] rneg_rneg[OF P] ec_ok_pos[OF ok] by simp

lemma radd_comm:
  assumes ok: "ec_ok q a b" and P1: "ron q a b P1" and P2: "ron q a b P2"
  shows "radd q a P1 P2 = radd q a P2 P1"
  using ok P1 P2
proof (cases rule: radd_cases)
  case ZeroL then show ?thesis by simp
next
  case ZeroR then show ?thesis by simp
next
  case (Inverse x y)
  then show ?thesis using rneg_radd_self[OF ok P1] by simp
next
  case (Double x y l x3 y3) then show ?thesis by simp
next
  case (Chord x1 y1 x2 y2 l x3 y3)
  have "radd q a (RPt x2 y2) (RPt x1 y1) = RPt x3 y3"
    using radd_chord_eq[OF ok P2[unfolded Chord(2)] P1[unfolded Chord(1)] _ chord_sym[OF Chord(4)]]
      ron_reduced[OF Chord(6)] Chord(3) by simp
  then show ?thesis using Chord by simp
qed

lemma radd_eq_RInf:
  assumes ok: "ec_ok q a b" and P1: "ron q a b P1" and P2: "ron q a b P2"
    and z: "radd q a P1 P2 = RInf"
  shows "P2 = rneg q P1"
  using ok P1 P2
proof (cases rule: radd_cases)
  case ZeroL then show ?thesis using z by simp
next
  case ZeroR then show ?thesis using z by simp
next
  case (Inverse x y) then show ?thesis by simp
next
  case (Double x y l x3 y3) then show ?thesis using z by simp
next
  case (Chord x1 y1 x2 y2 l x3 y3) then show ?thesis using z by simp
qed

section \<open>Opposite of a sum; sums that fix a point\<close>

lemma radd_chordE:
  assumes ok: "ec_ok q a b" and P1: "ron q a b (RPt x1 y1)" and P2: "ron q a b (RPt x2 y2)"
    and ne: "x1 \<noteq> x2"
  obtains l x3 y3 where "radd q a (RPt x1 y1) (RPt x2 y2) = RPt x3 y3"
    "chord q x1 y1 x2 y2 l x3 y3" "ron q a b (RPt x3 y3)"
  using ok P1 P2
proof (cases rule: radd_cases)
  case (Chord x1' y1' x2' y2' l x3 y3)
  then show ?thesis using that by simp
qed (use ne in \<open>simp_all add: rneg_def\<close>)

lemma radd_tangentE:
  assumes ok: "ec_ok q a b" and P1: "ron q a b (RPt x y)" and ne: "y \<noteq> 0"
  obtains l x3 y3 where "radd q a (RPt x y) (RPt x y) = RPt x3 y3"
    "tangent q a x y l x3 y3" "ron q a b (RPt x3 y3)"
  using ok P1 P1
proof (cases rule: radd_cases)
  case (Double x' y' l x3 y3)
  then show ?thesis using that by simp
next
  case (Inverse x' y')
  then have "rneg q (RPt x y) = RPt x y" by simp
  then show ?thesis using rneg_self_iff[OF ok P1] ne by simp
qed simp_all

lemma neg_mod_dvd: "(q::int) dvd (- y) mod q + y"
  using cg_mod[of q "- y"] by (simp add: cg_def)

lemma mod_reduced:
  fixes q :: int assumes "0 < q" shows "0 \<le> i mod q" "i mod q < q"
  using assms by simp_all

lemma ron_nz:
  assumes "ron q a b (RPt x y)" "y \<noteq> 0" shows "\<not> q dvd y"
  using reduced_nz[OF ron_reduced(3,4)[OF assms(1)] assms(2)] .

lemma ron_ne:
  assumes "ron q a b (RPt x1 y1)" "ron q a b (RPt x2 y2)" "x1 \<noteq> x2"
  shows "\<not> q dvd x2 - x1"
  using reduced_ne[OF ron_reduced(1,2)[OF assms(1)] ron_reduced(1,2)[OF assms(2)] assms(3)] .

text \<open>The opposite of a sum is the sum of the opposites.\<close>

lemma rneg_radd:
  assumes ok: "ec_ok q a b" and P1: "ron q a b P1" and P2: "ron q a b P2"
  shows "rneg q (radd q a P1 P2) = radd q a (rneg q P1) (rneg q P2)"
  using ok P1 P2
proof (cases rule: radd_cases)
  case ZeroL then show ?thesis by simp
next
  case ZeroR then show ?thesis by simp
next
  case (Inverse x y)
  have "ron q a b (rneg q P1)" using rneg_closed[OF _ P1] ec_ok_pos[OF ok] by simp
  from radd_rneg[OF ok this] show ?thesis using Inverse by simp
next
  case (Double x y l x3 y3)
  have q0: "0 < q" using ec_ok_pos[OF ok] by simp
  define y' where "y' = (- y) mod q"
  define Y where "Y = (- y3) mod q"
  have n1: "rneg q P1 = RPt x y'" using Double(1) by (simp add: rneg_def y'_def)
  have on: "ron q a b (RPt x y')" using rneg_closed[OF q0 P1] n1 by simp
  have e1: "q dvd y' + y" unfolding y'_def by (rule neg_mod_dvd)
  have e2: "q dvd Y + y3" unfolding Y_def by (rule neg_mod_dvd)
  have ny: "\<not> q dvd y" using ron_nz[OF P1[unfolded Double(1)] Double(3)] .
  have ne: "y' \<noteq> 0"
  proof
    assume "y' = 0"
    with e1 have "q dvd y" by simp
    with ny show False ..
  qed
  note t = tangentD[OF Double(5)]
  have "tangent q a x y' (- l) x3 Y"
  proof (rule tangentI)
    show "q dvd - l * (2 * y') - (3 * x^2 + a)" using t(1) e1 by algebra
    show "q dvd x3 - ((- l)^2 - x - x)" using t(2) by algebra
    show "q dvd Y - (- l * (x - x3) - y')" using t(3) e1 e2 by algebra
  qed
  from radd_tangent_eq[OF ok on ne this ron_reduced(1,2)[OF Double(7)]]
  have "radd q a (RPt x y') (RPt x y') = RPt x3 Y" using q0 by (simp add: Y_def)
  then show ?thesis using Double(1,2,6) n1 by (simp add: rneg_def Y_def)
next
  case (Chord x1 y1 x2 y2 l x3 y3)
  have q0: "0 < q" using ec_ok_pos[OF ok] by simp
  define y1' where "y1' = (- y1) mod q"
  define y2' where "y2' = (- y2) mod q"
  define Y where "Y = (- y3) mod q"
  have n1: "rneg q P1 = RPt x1 y1'" using Chord(1) by (simp add: rneg_def y1'_def)
  have n2: "rneg q P2 = RPt x2 y2'" using Chord(2) by (simp add: rneg_def y2'_def)
  have on1: "ron q a b (RPt x1 y1')" using rneg_closed[OF q0 P1] n1 by simp
  have on2: "ron q a b (RPt x2 y2')" using rneg_closed[OF q0 P2] n2 by simp
  have e1: "q dvd y1' + y1" unfolding y1'_def by (rule neg_mod_dvd)
  have e2: "q dvd y2' + y2" unfolding y2'_def by (rule neg_mod_dvd)
  have e3: "q dvd Y + y3" unfolding Y_def by (rule neg_mod_dvd)
  note c = chordD[OF Chord(4)]
  have "chord q x1 y1' x2 y2' (- l) x3 Y"
  proof (rule chordI)
    show "q dvd - l * (x2 - x1) - (y2' - y1')" using c(1) e1 e2 by algebra
    show "q dvd x3 - ((- l)^2 - x1 - x2)" using c(2) by algebra
    show "q dvd Y - (- l * (x1 - x3) - y1')" using c(3) e1 e3 by algebra
  qed
  from radd_chord_eq[OF ok on1 on2 Chord(3) this ron_reduced(1,2)[OF Chord(6)]]
  have "radd q a (RPt x1 y1') (RPt x2 y2') = RPt x3 Y" using q0 by (simp add: Y_def)
  then show ?thesis using Chord(1,2,5) n1 n2 by (simp add: rneg_def Y_def)
qed

lemma radd_fixed_zero:
  assumes ok: "ec_ok q a b" and P1: "ron q a b P1" and P2: "ron q a b P2"
    and fx: "radd q a P1 P2 = P2"
  shows "P1 = RInf"
  using ok P1 P2
proof (cases rule: radd_cases)
  case ZeroL then show ?thesis .
next
  case ZeroR then show ?thesis using fx by simp
next
  case (Inverse x y) then show ?thesis using fx by (simp add: rneg_def)
next
  case (Double x y l x3 y3)
  then have "x3 = x" "y3 = y" using fx by simp_all
  with tangentD(3)[OF Double(5)] have "q dvd 2 * y" by algebra
  moreover have "\<not> q dvd y" using ron_nz[OF P1[unfolded Double(1)] Double(3)] .
  ultimately show ?thesis using two_nz[OF ok] by blast
next
  case (Chord x1 y1 x2 y2 l x3 y3)
  have pr: "is_prime q" using ec_ok_prime[OF ok] .
  have e: "x3 = x2" "y3 = y2" using Chord fx by simp_all
  note c = chordD[OF Chord(4)[unfolded e]]
  have nd: "\<not> q dvd x2 - x1" using ron_ne[OF P1[unfolded Chord(1)] P2[unfolded Chord(2)] Chord(3)] .
  have E1: "q dvd y1^2 - (x1^3 + a * x1 + b)" using ron_curve[OF P1[unfolded Chord(1)]] .
  have E2: "q dvd y2^2 - (x2^3 + a * x2 + b)" using ron_curve[OF P2[unfolded Chord(2)]] .
  have "q dvd 2 * y2" using c(1,3) by algebra
  then have y2: "q dvd y2" using two_nz[OF ok] by blast
  then have r: "q dvd x2^3 + a * x2 + b" using E2 by algebra
  have "q dvd (x2 - x1) * (3 * x2^2 + a)" using c(1,2) y2 E1 r by algebra
  then have "q dvd 3 * x2^2 + a" by (rule prime_cancel[OF pr nd])
  moreover have "y2 = 0" using y2 ron_nz[OF P2[unfolded Chord(2)]] by blast
  ultimately show ?thesis using ron_ns[OF P2[unfolded Chord(2)]] by blast
qed

section \<open>Cancellation\<close>

lemma rneg_RPt_ne:
  assumes ok: "ec_ok q a b" and P: "ron q a b (RPt x y)" and ne: "y \<noteq> 0"
  shows "(- y) mod q \<noteq> 0" "rneg q (RPt x y) \<noteq> RPt x y"
proof -
  show "(- y) mod q \<noteq> 0"
  proof
    assume "(- y) mod q = 0"
    with neg_mod_dvd[of q y] have "q dvd y" by simp
    with ron_nz[OF P ne] show False ..
  qed
  show "rneg q (RPt x y) \<noteq> RPt x y" using rneg_self_iff[OF ok P] ne by simp
qed

lemma ron_rneg_RPt:
  assumes ok: "ec_ok q a b" and P: "ron q a b (RPt x y)"
  shows "ron q a b (RPt x ((- y) mod q))"
  using rneg_closed[OF _ P] ec_ok_pos[OF ok] by (simp add: rneg_def)

lemma ron_rneg:
  assumes ok: "ec_ok q a b" and P: "ron q a b P"
  shows "ron q a b (rneg q P)"
  using rneg_closed[OF _ P] ec_ok_pos[OF ok] by simp

text \<open>If adding a point and adding its opposite give the same result, the point has order
  at most 2, unless the other summand has.\<close>

lemma radd_same_opp:
  assumes ok: "ec_ok q a b" and P1: "ron q a b P1" and P2: "ron q a b P2"
    and eq: "radd q a P1 P2 = radd q a P1 (rneg q P2)"
    and n1: "P1 \<noteq> rneg q P1"
  shows "P2 = rneg q P2"
  using ok P1 P2
proof (cases rule: radd_cases)
  case ZeroL then show ?thesis using eq by simp
next
  case ZeroR then show ?thesis by simp
next
  case (Inverse x y)
  then have "radd q a P1 P1 = RInf" using eq rneg_rneg[OF P1] by simp
  from radd_eq_RInf[OF ok P1 P1 this] n1 show ?thesis by simp
next
  case (Double x y l x3 y3)
  then show ?thesis using eq radd_rneg[OF ok P1] by simp
next
  case (Chord x1 y1 x2 y2 l x3 y3)
  have pr: "is_prime q" using ec_ok_prime[OF ok] .
  note Q1 = P1[unfolded Chord(1)] and Q2 = P2[unfolded Chord(2)]
  define y2' where "y2' = (- y2) mod q"
  have e2: "q dvd y2' + y2" unfolding y2'_def by (rule neg_mod_dvd)
  have Q2': "ron q a b (RPt x2 y2')" unfolding y2'_def by (rule ron_rneg_RPt[OF ok Q2])
  obtain l' x3' y3' where r: "radd q a (RPt x1 y1) (RPt x2 y2') = RPt x3' y3'"
    and ch: "chord q x1 y1 x2 y2' l' x3' y3'"
    by (rule radd_chordE[OF ok Q1 Q2' Chord(3)])
  have "x3' = x3" using eq r Chord(1,2,5) by (simp add: rneg_def y2'_def)
  note c = chordD[OF Chord(4)] and c' = chordD[OF ch[unfolded \<open>x3' = x3\<close>]]
  have nd: "\<not> q dvd x2 - x1" using ron_ne[OF Q1 Q2 Chord(3)] .
  have y1: "y1 \<noteq> 0" using n1 rneg_self_iff[OF ok Q1] Chord(1) by auto
  have "q dvd (x2 - x1) * ((x2 - x1) * (2 * (2 * (y1 * y2))))" using c(1,2) c'(1,2) e2 by algebra
  then have "q dvd 2 * (2 * (y1 * y2))" using prime_cancel[OF pr nd] by blast
  then have "q dvd y1 * y2" using prime_cancel[OF pr ec_ok_odd[OF ok]] by blast
  then have "q dvd y2" using prime_cancel[OF pr ron_nz[OF Q1 y1]] by blast
  then have "y2 = 0" using ron_nz[OF Q2] by blast
  then show ?thesis using Chord(2) by (simp add: rneg_def)
qed

text \<open>Twice a point minus the point.\<close>

lemma radd_double_minus:
  assumes ok: "ec_ok q a b" and P: "ron q a b P"
    and n1: "P \<noteq> rneg q P" and n2: "radd q a P P \<noteq> rneg q P"
  shows "radd q a (radd q a P P) (rneg q P) = P"
proof (cases P)
  case RInf then show ?thesis using n1 by simp
next
  case (RPt x y)
  note Q = P[unfolded RPt]
  have y: "y \<noteq> 0" using n1 rneg_self_iff[OF ok Q] RPt by auto
  define y' where "y' = (- y) mod q"
  have e: "q dvd y' + y" unfolding y'_def by (rule neg_mod_dvd)
  have Q': "ron q a b (RPt x y')" unfolding y'_def by (rule ron_rneg_RPt[OF ok Q])
  have nP: "rneg q P = RPt x y'" using RPt by (simp add: rneg_def y'_def)
  obtain l X Y where r: "radd q a (RPt x y) (RPt x y) = RPt X Y"
    and tg: "tangent q a x y l X Y" and D: "ron q a b (RPt X Y)"
    by (rule radd_tangentE[OF ok Q y])
  note t = tangentD[OF tg]
  have ne: "X \<noteq> x"
  proof
    assume "X = x"
    with same_x[OF ec_ok_prime[OF ok] Q] D have "Y = y \<or> Y = y'" by (simp add: y'_def)
    then show False
    proof
      assume "Y = y"
      then have "radd q a P P = P" using r RPt \<open>X = x\<close> by simp
      from radd_fixed_zero[OF ok P P this] RPt show False by simp
    next
      assume "Y = y'"
      then show False using n2 r RPt nP \<open>X = x\<close> by simp
    qed
  qed
  have "chord q X Y x y' (- l) x y"
  proof (rule chordI)
    show "q dvd - l * (x - X) - (y' - Y)" using t(3) e by algebra
    show "q dvd x - ((- l)^2 - X - x)" using t(2) by algebra
    show "q dvd y - (- l * (X - x) - Y)" using t(3) by algebra
  qed
  from radd_chord_eq[OF ok D Q' ne this ron_reduced[OF Q]]
  show ?thesis using r RPt nP by simp
qed

text \<open>A sum equal to the opposite of its first summand.\<close>

lemma radd_to_opp:
  assumes ok: "ec_ok q a b" and P1: "ron q a b P1" and P2: "ron q a b P2"
    and eq: "radd q a P1 P2 = rneg q P1"
  shows "P2 = radd q a (rneg q P1) (rneg q P1)"
proof (cases "P1 = rneg q P1")
  case True
  then have "radd q a P2 P1 = P1" using eq radd_comm[OF ok P1 P2] by simp
  from radd_fixed_zero[OF ok P2 P1 this] have "P2 = RInf" .
  moreover have "radd q a (rneg q P1) (rneg q P1) = RInf"
    using radd_rneg[OF ok P1] True by simp
  ultimately show ?thesis by simp
next
  case False
  from ok P1 P2 show ?thesis
  proof (cases rule: radd_cases)
    case ZeroL then show ?thesis using False by simp
  next
    case ZeroR then show ?thesis using False eq by simp
  next
    case (Inverse x y) then show ?thesis using eq by (simp add: rneg_def)
  next
    case (Double x y l x3 y3)
    have "radd q a (rneg q P1) (rneg q P1) = rneg q (radd q a P1 P1)"
      using rneg_radd[OF ok P1 P1] by simp
    also have "\<dots> = P1" using eq Double(2) rneg_rneg[OF P1] by simp
    finally show ?thesis using Double(2) by simp
  next
    case (Chord x1 y1 x2 y2 l x3 y3)
    have pr: "is_prime q" using ec_ok_prime[OF ok] .
    note Q1 = P1[unfolded Chord(1)] and Q2 = P2[unfolded Chord(2)]
    define y1' where "y1' = (- y1) mod q"
    have e1: "q dvd y1' + y1" unfolding y1'_def by (rule neg_mod_dvd)
    have Q1': "ron q a b (RPt x1 y1')" unfolding y1'_def by (rule ron_rneg_RPt[OF ok Q1])
    have y1: "y1 \<noteq> 0" using False rneg_self_iff[OF ok Q1] Chord(1) by auto
    have y1': "y1' \<noteq> 0" unfolding y1'_def by (rule rneg_RPt_ne(1)[OF ok Q1 y1])
    have "x3 = x1" using eq Chord(1,5) by (simp add: rneg_def)
    note c = chordD[OF Chord(4)[unfolded \<open>x3 = x1\<close>]]
    have nd: "\<not> q dvd x2 - x1" using ron_ne[OF Q1 Q2 Chord(3)] .
    have "q dvd (x2 - x1) * (l * (2 * y1) - (3 * x1^2 + a))"
      using c(1,2) ron_curve[OF Q1] ron_curve[OF Q2] by algebra
    then have sl: "q dvd l * (2 * y1) - (3 * x1^2 + a)" by (rule prime_cancel[OF pr nd])
    have "tangent q a x1 y1' (- l) x2 y2"
    proof (rule tangentI)
      show "q dvd - l * (2 * y1') - (3 * x1^2 + a)" using sl e1 by algebra
      show "q dvd x2 - ((- l)^2 - x1 - x1)" using c(2) by algebra
      show "q dvd y2 - (- l * (x1 - x2) - y1')" using c(1) e1 by algebra
    qed
    from radd_tangent_eq[OF ok Q1' y1' this ron_reduced[OF Q2]]
    show ?thesis using Chord(1,2) by (simp add: rneg_def y1'_def)
  qed
qed

text \<open>Subtracting a summand again.\<close>

lemma radd_minus_id:
  assumes ok: "ec_ok q a b" and P1: "ron q a b P1" and P2: "ron q a b P2"
  shows "radd q a (radd q a P1 P2) (rneg q P2) = P1"
proof (cases "radd q a P1 P2 = rneg q P2")
  case True
  then have "radd q a P2 P1 = rneg q P2" using radd_comm[OF ok P1 P2] by simp
  from radd_to_opp[OF ok P2 P1 this] show ?thesis using True by simp
next
  case False
  from ok P1 P2 show ?thesis
  proof (cases rule: radd_cases)
    case ZeroL then show ?thesis using radd_rneg[OF ok P2] by simp
  next
    case ZeroR then show ?thesis by simp
  next
    case (Inverse x y) then show ?thesis using rneg_rneg[OF P1] by simp
  next
    case (Double x y l x3 y3)
    then have "P1 \<noteq> rneg q P1" by simp
    from radd_double_minus[OF ok P1 this] False Double(2) show ?thesis by simp
  next
    case (Chord x1 y1 x2 y2 l x3 y3)
    note Q1 = P1[unfolded Chord(1)] and Q2 = P2[unfolded Chord(2)]
    define y2' where "y2' = (- y2) mod q"
    have e2: "q dvd y2' + y2" unfolding y2'_def by (rule neg_mod_dvd)
    have Q2': "ron q a b (RPt x2 y2')" unfolding y2'_def by (rule ron_rneg_RPt[OF ok Q2])
    have nP: "rneg q P2 = RPt x2 y2'" using Chord(2) by (simp add: rneg_def y2'_def)
    note c = chordD[OF Chord(4)]
    have ne: "x3 \<noteq> x2"
    proof
      assume "x3 = x2"
      with same_x[OF ec_ok_prime[OF ok] Q2] Chord(6) have "y3 = y2 \<or> y3 = y2'"
        by (simp add: y2'_def)
      then show False
      proof
        assume "y3 = y2"
        then have "radd q a P1 P2 = P2" using Chord(2,5) \<open>x3 = x2\<close> by simp
        from radd_fixed_zero[OF ok P1 P2 this] Chord(1) show False by simp
      next
        assume "y3 = y2'"
        then show False using False Chord(5) nP \<open>x3 = x2\<close> by simp
      qed
    qed
    have "chord q x3 y3 x2 y2' (- l) x1 y1"
    proof (rule chordI)
      show "q dvd - l * (x2 - x3) - (y2' - y3)" using c(1,3) e2 by algebra
      show "q dvd x1 - ((- l)^2 - x3 - x2)" using c(2) by algebra
      show "q dvd y1 - (- l * (x3 - x1) - y3)" using c(3) by algebra
    qed
    from radd_chord_eq[OF ok Chord(6) Q2' ne this ron_reduced[OF Q1]]
    show ?thesis using Chord(1,5) nP by simp
  qed
qed

lemma radd_cancel:
  assumes ok: "ec_ok q a b" and P1: "ron q a b P1" and P2: "ron q a b P2" and P3: "ron q a b P3"
    and eq: "radd q a P1 P2 = radd q a P1 P3"
  shows "P2 = P3"
proof -
  have "P2 = radd q a (radd q a P2 P1) (rneg q P1)" using radd_minus_id[OF ok P2 P1] by simp
  also have "radd q a P2 P1 = radd q a P3 P1"
    using eq radd_comm[OF ok P1 P2] radd_comm[OF ok P1 P3] by simp
  also have "radd q a (radd q a P3 P1) (rneg q P1) = P3" by (rule radd_minus_id[OF ok P3 P1])
  finally show ?thesis .
qed

text \<open>Associativity when one of the points, or one of the sums, is trivial.\<close>

lemma radd_assoc_degenerate:
  assumes ok: "ec_ok q a b" and P1: "ron q a b P1" and P2: "ron q a b P2" and P3: "ron q a b P3"
    and H: "P1 = RInf \<or> P2 = RInf \<or> P3 = RInf \<or> P1 = rneg q P2 \<or> P2 = rneg q P3
      \<or> rneg q P1 = radd q a P2 P3 \<or> rneg q P3 = radd q a P1 P2"
  shows "radd q a P1 (radd q a P2 P3) = radd q a (radd q a P1 P2) P3"
proof -
  note cl = radd_closed[OF ok] and ng = ron_rneg[OF ok]
  consider "P1 = RInf \<or> P2 = RInf \<or> P3 = RInf" | "P1 = rneg q P2" | "P2 = rneg q P3"
    | "rneg q P1 = radd q a P2 P3" | "rneg q P3 = radd q a P1 P2"
    using H by blast
  then show ?thesis
  proof cases
    case 1 then show ?thesis by auto
  next
    case 2
    have "radd q a (rneg q P2) (radd q a P2 P3) = radd q a (radd q a P3 P2) (rneg q P2)"
      using radd_comm[OF ok ng[OF P2] cl[OF P2 P3]] radd_comm[OF ok P2 P3] by simp
    also have "\<dots> = P3" by (rule radd_minus_id[OF ok P3 P2])
    finally show ?thesis using 2 rneg_radd_self[OF ok P2] by simp
  next
    case 3
    have "radd q a (radd q a P1 (rneg q P3)) (rneg q (rneg q P3)) = P1"
      by (rule radd_minus_id[OF ok P1 ng[OF P3]])
    then show ?thesis using 3 rneg_radd_self[OF ok P3] rneg_rneg[OF P3] by simp
  next
    case 4
    have l: "radd q a P1 (radd q a P2 P3) = RInf" using radd_rneg[OF ok P1] 4 by simp
    have "P1 = rneg q (radd q a P2 P3)" using 4 rneg_rneg[OF P1] by metis
    also have "\<dots> = radd q a (rneg q P3) (rneg q P2)"
      using rneg_radd[OF ok P2 P3] radd_comm[OF ok ng[OF P2] ng[OF P3]] by simp
    finally have "radd q a P1 P2 = radd q a (radd q a (rneg q P3) (rneg q P2)) (rneg q (rneg q P2))"
      using rneg_rneg[OF P2] by simp
    also have "\<dots> = rneg q P3" by (rule radd_minus_id[OF ok ng[OF P3] ng[OF P2]])
    finally show ?thesis using l rneg_radd_self[OF ok P3] by simp
  next
    case 5
    have r: "radd q a (radd q a P1 P2) P3 = RInf" using rneg_radd_self[OF ok P3] 5 by simp
    have "P3 = rneg q (radd q a P1 P2)" using 5 rneg_rneg[OF P3] by metis
    also have "\<dots> = radd q a (rneg q P1) (rneg q P2)" by (rule rneg_radd[OF ok P1 P2])
    finally have "radd q a P2 P3 = radd q a (radd q a (rneg q P1) (rneg q P2)) (rneg q (rneg q P2))"
      using rneg_rneg[OF P2] radd_comm[OF ok P2 P3] by simp
    also have "\<dots> = rneg q P1" by (rule radd_minus_id[OF ok ng[OF P1] ng[OF P2]])
    finally show ?thesis using r radd_rneg[OF ok P1] by simp
  qed
qed

section \<open>The three polynomial identities behind associativity\<close>

text \<open>Each identity is stated for coordinates that are polynomials in a few free parameters,
  so that a single relation remains.\<close>

lemma gen_x:
  fixes q :: int
  assumes y2: "y2 = y1 + l * (x2 - x1)"
    and a: "a = l * (y1 + y2) - (x1^2 + x1 * x2 + x2^2)"
    and x4: "x4 = l^2 - x1 - x2" and y4: "y4 = l * (x1 - x4) - y1"
    and y3: "y3 = y2 + m * (x3 - x2)"
    and x5: "x5 = m^2 - x2 - x3" and y5: "y5 = m * (x2 - x5) - y2"
    and Q: "q dvd m * (y3 + y2) - (x3^2 + x3 * x2 + x2^2) - a"
  shows "q dvd (y3 - y4)^2 * (x5 - x1)^2 - (y5 - y1)^2 * (x3 - x4)^2
             - (x4 + x3 - x1 - x5) * ((x3 - x4)^2 * (x5 - x1)^2)"
  using Q unfolding y5 x5 y3 y4 x4 a y2 by algebra

lemma gen_y:
  fixes q :: int
  assumes y2: "y2 = y1 + l * (x2 - x1)"
    and a: "a = l * (y1 + y2) - (x1^2 + x1 * x2 + x2^2)"
    and x4: "x4 = l^2 - x1 - x2" and y4: "y4 = l * (x1 - x4) - y1"
    and y3: "y3 = y2 + m * (x3 - x2)"
    and x5: "x5 = m^2 - x2 - x3" and y5: "y5 = m * (x2 - x5) - y2"
    and Q: "q dvd m * (y3 + y2) - (x3^2 + x3 * x2 + x2^2) - a"
  shows "q dvd (y3 - y4) * (x5 - x1) * (x4 * (x3 - x4)^2 - ((y3 - y4)^2 - (x4 + x3) * (x3 - x4)^2))
       - y4 * ((x3 - x4)^3 * (x5 - x1))
       - (y5 - y1) * (x3 - x4) * (x1 * (x3 - x4)^2 - ((y3 - y4)^2 - (x4 + x3) * (x3 - x4)^2))
       + y1 * ((x3 - x4)^3 * (x5 - x1))"
  using Q unfolding y5 x5 y3 y4 x4 a y2 by algebra

lemma dbl_x:
  fixes q :: int
  assumes a: "a = m * (2 * y2) - 3 * x2^2"
    and y1: "y1 = y2 + l * (x1 - x2)"
    and x4: "x4 = l^2 - x1 - x2" and y4: "y4 = l * (x1 - x4) - y1"
    and x5: "x5 = m^2 - x2 - x2" and y5: "y5 = m * (x2 - x5) - y2"
    and Q: "q dvd l * (y1 + y2) - (x1^2 + x1 * x2 + x2^2) - a"
  shows "q dvd (y2 - y4)^2 * (x5 - x1)^2 - (y5 - y1)^2 * (x2 - x4)^2
             - (x4 + x2 - x1 - x5) * ((x2 - x4)^2 * (x5 - x1)^2)"
  using Q unfolding y5 x5 y4 x4 y1 a by algebra

lemma dbl_y:
  fixes q :: int
  assumes a: "a = m * (2 * y2) - 3 * x2^2"
    and y1: "y1 = y2 + l * (x1 - x2)"
    and x4: "x4 = l^2 - x1 - x2" and y4: "y4 = l * (x1 - x4) - y1"
    and x5: "x5 = m^2 - x2 - x2" and y5: "y5 = m * (x2 - x5) - y2"
    and Q: "q dvd l * (y1 + y2) - (x1^2 + x1 * x2 + x2^2) - a"
  shows "q dvd (y2 - y4) * (x5 - x1) * (x4 * (x2 - x4)^2 - ((y2 - y4)^2 - (x4 + x2) * (x2 - x4)^2))
       - y4 * ((x2 - x4)^3 * (x5 - x1))
       - (y5 - y1) * (x2 - x4) * (x1 * (x2 - x4)^2 - ((y2 - y4)^2 - (x4 + x2) * (x2 - x4)^2))
       + y1 * ((x2 - x4)^3 * (x5 - x1))"
  using Q unfolding y5 x5 y4 x4 y1 a by algebra

lemma trp_x:
  fixes q :: int
  assumes a: "a = m * (2 * y2) - 3 * x2^2"
    and x1: "x1 = m^2 - x2 - x2" and y1: "y1 = m * (x2 - x1) - y2"
    and x4: "x4 = l^2 - x1 - x2" and y4: "y4 = l * (x1 - x4) - y1"
    and R: "q dvd l * (x2 - x1) - (y2 - y1)"
  shows "q dvd (y2 - y4)^2 * (2 * y1)^2 - (3 * x1^2 + a)^2 * (x2 - x4)^2
             - (x4 + x2 - x1 - x1) * ((x2 - x4)^2 * (2 * y1)^2)"
  using R unfolding y4 x4 y1 x1 a by algebra

lemma trp_y:
  fixes q :: int
  assumes a: "a = m * (2 * y2) - 3 * x2^2"
    and x1: "x1 = m^2 - x2 - x2" and y1: "y1 = m * (x2 - x1) - y2"
    and x4: "x4 = l^2 - x1 - x2" and y4: "y4 = l * (x1 - x4) - y1"
    and R: "q dvd l * (x2 - x1) - (y2 - y1)"
  shows "q dvd (y2 - y4) * (2 * y1) * (x4 * (x2 - x4)^2 - ((y2 - y4)^2 - (x4 + x2) * (x2 - x4)^2))
       - y4 * ((x2 - x4)^3 * (2 * y1))
       - (3 * x1^2 + a) * (x2 - x4) * (x1 * (x2 - x4)^2 - ((y2 - y4)^2 - (x4 + x2) * (x2 - x4)^2))
       + y1 * ((x2 - x4)^3 * (2 * y1))"
  using R unfolding y4 x4 y1 x1 a by algebra

subsection \<open>Clearing the denominators of the two outer slopes\<close>

lemma glue_x:
  fixes q :: int
  assumes pr: "is_prime q" and nd: "\<not> q dvd d" and ne: "\<not> q dvd e"
    and U: "q dvd u * d - n" and V: "q dvd v * e - m"
    and G: "q dvd n^2 * e^2 - m^2 * d^2 - k * (d^2 * e^2)"
  shows "q dvd u^2 - v^2 - k"
proof -
  have "q dvd d * (d * (e * (e * (u^2 - v^2 - k))))" using U V G by algebra
  then show ?thesis using prime_cancel[OF pr nd] prime_cancel[OF pr ne] by blast
qed

lemma glue_y:
  fixes q :: int
  assumes pr: "is_prime q" and nd: "\<not> q dvd d" and ne: "\<not> q dvd e"
    and U: "q dvd u * d - n" and V: "q dvd v * e - m"
    and X: "q dvd x6 - (u^2 - s)"
    and G: "q dvd n * e * (x4 * d^2 - (n^2 - s * d^2)) - y4 * (d^3 * e)
       - m * d * (x1 * d^2 - (n^2 - s * d^2)) + y1 * (d^3 * e)"
  shows "q dvd (u * (x4 - x6) - y4) - (v * (x1 - x6) - y1)"
proof -
  have "q dvd d * (d * (d * (e * ((u * (x4 - x6) - y4) - (v * (x1 - x6) - y1)))))"
    using U V X G by algebra
  then show ?thesis using prime_cancel[OF pr nd] prime_cancel[OF pr ne] by blast
qed

section \<open>Associativity for coordinates given by congruences\<close>


lemma assoc_gen:
  fixes q :: int
  assumes pr: "is_prime q"
    and E1: "q dvd y1^2 - (x1^3 + a * x1 + b)"
    and E2: "q dvd y2^2 - (x2^3 + a * x2 + b)"
    and E3: "q dvd y3^2 - (x3^3 + a * x3 + b)"
    and L: "chord q x1 y1 x2 y2 l x4 y4" and M: "chord q x2 y2 x3 y3 m x5 y5"
    and U: "chord q x4 y4 x3 y3 u x6 y6" and V: "chord q x1 y1 x5 y5 v x7 y7"
    and n12: "\<not> q dvd x2 - x1" and n23: "\<not> q dvd x3 - x2"
    and n43: "\<not> q dvd x3 - x4" and n15: "\<not> q dvd x5 - x1"
  shows "q dvd x6 - x7" "q dvd y6 - y7"
proof -
  note l = chordD[OF L] and m = chordD[OF M] and u = chordD[OF U] and v = chordD[OF V]
  define Y2 where "Y2 = y1 + l * (x2 - x1)"
  define A where "A = l * (y1 + Y2) - (x1^2 + x1 * x2 + x2^2)"
  define X4 where "X4 = l^2 - x1 - x2"
  define Y4 where "Y4 = l * (x1 - X4) - y1"
  define Y3 where "Y3 = Y2 + m * (x3 - x2)"
  define X5 where "X5 = m^2 - x2 - x3"
  define Y5 where "Y5 = m * (x2 - X5) - Y2"
  have cY2: "cg q y2 Y2" unfolding Y2_def cg_def using l(1) by algebra
  have "q dvd (x2 - x1) * (a - (l * (y1 + y2) - (x1^2 + x1 * x2 + x2^2)))"
    using E1 E2 l(1) by algebra
  then have "q dvd a - (l * (y1 + y2) - (x1^2 + x1 * x2 + x2^2))"
    by (rule prime_cancel[OF pr n12])
  then have "cg q a (l * (y1 + y2) - (x1^2 + x1 * x2 + x2^2))" by (rule dvd_cg)
  moreover have "cg q (l * (y1 + y2) - (x1^2 + x1 * x2 + x2^2)) A"
    unfolding A_def by (intro cg_intros cg_refl cY2)
  ultimately have cA: "cg q a A" by (rule cg_trans)
  have cX4: "cg q x4 X4" unfolding X4_def using l(2) by (rule dvd_cg)
  have cY4: "cg q y4 Y4" unfolding Y4_def
    by (rule cg_trans[OF dvd_cg[OF l(3)]]) (intro cg_intros cg_refl cX4)
  have d3: "q dvd y3 - (y2 + m * (x3 - x2))" using m(1) by algebra
  have cY3: "cg q y3 Y3" unfolding Y3_def
    by (rule cg_trans[OF dvd_cg[OF d3]]) (intro cg_intros cg_refl cY2)
  have cX5: "cg q x5 X5" unfolding X5_def using m(2) by (rule dvd_cg)
  have cY5: "cg q y5 Y5" unfolding Y5_def
    by (rule cg_trans[OF dvd_cg[OF m(3)]]) (intro cg_intros cg_refl cX5 cY2)
  have "q dvd (x3 - x2) * (m * (y3 + y2) - (x3^2 + x3 * x2 + x2^2) - a)"
    using E2 E3 m(1) by algebra
  then have "q dvd m * (y3 + y2) - (x3^2 + x3 * x2 + x2^2) - a"
    by (rule prime_cancel[OF pr n23])
  moreover have "cg q (m * (y3 + y2) - (x3^2 + x3 * x2 + x2^2) - a)
      (m * (Y3 + Y2) - (x3^2 + x3 * x2 + x2^2) - A)"
    by (intro cg_intros cg_refl cY3 cY2 cA)
  ultimately have Q: "q dvd m * (Y3 + Y2) - (x3^2 + x3 * x2 + x2^2) - A" by (rule cg_dvd[rotated])
  note core = Y2_def A_def X4_def Y4_def Y3_def X5_def Y5_def Q
  have "cg q ((Y3 - Y4)^2 * (X5 - x1)^2 - (Y5 - y1)^2 * (x3 - X4)^2
             - (X4 + x3 - x1 - X5) * ((x3 - X4)^2 * (X5 - x1)^2))
     ((y3 - y4)^2 * (x5 - x1)^2 - (y5 - y1)^2 * (x3 - x4)^2
             - (x4 + x3 - x1 - x5) * ((x3 - x4)^2 * (x5 - x1)^2))"
    by (intro cg_intros cg_refl cg_sym[OF cY3] cg_sym[OF cY4] cg_sym[OF cX5] cg_sym[OF cY5]
        cg_sym[OF cX4])
  from cg_dvd[OF this gen_x[OF core]]
  have Gx: "q dvd (y3 - y4)^2 * (x5 - x1)^2 - (y5 - y1)^2 * (x3 - x4)^2
             - (x4 + x3 - x1 - x5) * ((x3 - x4)^2 * (x5 - x1)^2)" .
  from glue_x[OF pr n43 n15 u(1) v(1) Gx]
  have "q dvd u^2 - v^2 - (x4 + x3 - x1 - x5)" .
  then show x67: "q dvd x6 - x7" using u(2) v(2) by algebra
  have "cg q ((Y3 - Y4) * (X5 - x1) * (X4 * (x3 - X4)^2 - ((Y3 - Y4)^2 - (X4 + x3) * (x3 - X4)^2))
       - Y4 * ((x3 - X4)^3 * (X5 - x1))
       - (Y5 - y1) * (x3 - X4) * (x1 * (x3 - X4)^2 - ((Y3 - Y4)^2 - (X4 + x3) * (x3 - X4)^2))
       + y1 * ((x3 - X4)^3 * (X5 - x1)))
     ((y3 - y4) * (x5 - x1) * (x4 * (x3 - x4)^2 - ((y3 - y4)^2 - (x4 + x3) * (x3 - x4)^2))
       - y4 * ((x3 - x4)^3 * (x5 - x1))
       - (y5 - y1) * (x3 - x4) * (x1 * (x3 - x4)^2 - ((y3 - y4)^2 - (x4 + x3) * (x3 - x4)^2))
       + y1 * ((x3 - x4)^3 * (x5 - x1)))"
    by (intro cg_intros cg_refl cg_sym[OF cY3] cg_sym[OF cY4] cg_sym[OF cX5] cg_sym[OF cY5]
        cg_sym[OF cX4])
  from cg_dvd[OF this gen_y[OF core]]
  have Gy: "q dvd (y3 - y4) * (x5 - x1) * (x4 * (x3 - x4)^2 - ((y3 - y4)^2 - (x4 + x3) * (x3 - x4)^2))
       - y4 * ((x3 - x4)^3 * (x5 - x1))
       - (y5 - y1) * (x3 - x4) * (x1 * (x3 - x4)^2 - ((y3 - y4)^2 - (x4 + x3) * (x3 - x4)^2))
       + y1 * ((x3 - x4)^3 * (x5 - x1))" .
  have X: "q dvd x6 - (u^2 - (x4 + x3))" using u(2) by algebra
  from glue_y[OF pr n43 n15 u(1) v(1) X Gy]
  have "q dvd (u * (x4 - x6) - y4) - (v * (x1 - x6) - y1)" .
  then show "q dvd y6 - y7" using u(3) v(3) x67 by algebra
qed


lemma assoc_dbl:
  fixes q :: int
  assumes pr: "is_prime q"
    and E1: "q dvd y1^2 - (x1^3 + a * x1 + b)"
    and E2: "q dvd y2^2 - (x2^3 + a * x2 + b)"
    and L: "chord q x1 y1 x2 y2 l x4 y4" and M: "tangent q a x2 y2 m x5 y5"
    and U: "chord q x4 y4 x2 y2 u x6 y6" and V: "chord q x1 y1 x5 y5 v x7 y7"
    and n12: "\<not> q dvd x2 - x1"
    and n42: "\<not> q dvd x2 - x4" and n15: "\<not> q dvd x5 - x1"
  shows "q dvd x6 - x7" "q dvd y6 - y7"
proof -
  note l = chordD[OF L] and m = tangentD[OF M] and u = chordD[OF U] and v = chordD[OF V]
  define A where "A = m * (2 * y2) - 3 * x2^2"
  define Y1 where "Y1 = y2 + l * (x1 - x2)"
  define X4 where "X4 = l^2 - x1 - x2"
  define Y4 where "Y4 = l * (x1 - X4) - Y1"
  define X5 where "X5 = m^2 - x2 - x2"
  define Y5 where "Y5 = m * (x2 - X5) - y2"
  have cA: "cg q a A" unfolding A_def cg_def using m(1) by algebra
  have cY1: "cg q y1 Y1" unfolding Y1_def cg_def using l(1) by algebra
  have cX4: "cg q x4 X4" unfolding X4_def using l(2) by (rule dvd_cg)
  have cY4: "cg q y4 Y4" unfolding Y4_def
    by (rule cg_trans[OF dvd_cg[OF l(3)]]) (intro cg_intros cg_refl cX4 cY1)
  have cX5: "cg q x5 X5" unfolding X5_def using m(2) by (rule dvd_cg)
  have cY5: "cg q y5 Y5" unfolding Y5_def
    by (rule cg_trans[OF dvd_cg[OF m(3)]]) (intro cg_intros cg_refl cX5)
  have "q dvd (x2 - x1) * (l * (y1 + y2) - (x1^2 + x1 * x2 + x2^2) - a)"
    using E1 E2 l(1) by algebra
  then have "q dvd l * (y1 + y2) - (x1^2 + x1 * x2 + x2^2) - a"
    by (rule prime_cancel[OF pr n12])
  moreover have "cg q (l * (y1 + y2) - (x1^2 + x1 * x2 + x2^2) - a)
      (l * (Y1 + y2) - (x1^2 + x1 * x2 + x2^2) - A)"
    by (intro cg_intros cg_refl cY1 cA)
  ultimately have Q: "q dvd l * (Y1 + y2) - (x1^2 + x1 * x2 + x2^2) - A" by (rule cg_dvd[rotated])
  note core = A_def Y1_def X4_def Y4_def X5_def Y5_def Q
  note sy = cg_sym[OF cY1] cg_sym[OF cY4] cg_sym[OF cX5] cg_sym[OF cY5] cg_sym[OF cX4]
  have "cg q ((y2 - Y4)^2 * (X5 - x1)^2 - (Y5 - Y1)^2 * (x2 - X4)^2
             - (X4 + x2 - x1 - X5) * ((x2 - X4)^2 * (X5 - x1)^2))
     ((y2 - y4)^2 * (x5 - x1)^2 - (y5 - y1)^2 * (x2 - x4)^2
             - (x4 + x2 - x1 - x5) * ((x2 - x4)^2 * (x5 - x1)^2))"
    by (intro cg_intros cg_refl sy)
  from cg_dvd[OF this dbl_x[OF core]]
  have Gx: "q dvd (y2 - y4)^2 * (x5 - x1)^2 - (y5 - y1)^2 * (x2 - x4)^2
             - (x4 + x2 - x1 - x5) * ((x2 - x4)^2 * (x5 - x1)^2)" .
  from glue_x[OF pr n42 n15 u(1) v(1) Gx]
  have "q dvd u^2 - v^2 - (x4 + x2 - x1 - x5)" .
  then show x67: "q dvd x6 - x7" using u(2) v(2) by algebra
  have "cg q ((y2 - Y4) * (X5 - x1) * (X4 * (x2 - X4)^2 - ((y2 - Y4)^2 - (X4 + x2) * (x2 - X4)^2))
       - Y4 * ((x2 - X4)^3 * (X5 - x1))
       - (Y5 - Y1) * (x2 - X4) * (x1 * (x2 - X4)^2 - ((y2 - Y4)^2 - (X4 + x2) * (x2 - X4)^2))
       + Y1 * ((x2 - X4)^3 * (X5 - x1)))
     ((y2 - y4) * (x5 - x1) * (x4 * (x2 - x4)^2 - ((y2 - y4)^2 - (x4 + x2) * (x2 - x4)^2))
       - y4 * ((x2 - x4)^3 * (x5 - x1))
       - (y5 - y1) * (x2 - x4) * (x1 * (x2 - x4)^2 - ((y2 - y4)^2 - (x4 + x2) * (x2 - x4)^2))
       + y1 * ((x2 - x4)^3 * (x5 - x1)))"
    by (intro cg_intros cg_refl sy)
  from cg_dvd[OF this dbl_y[OF core]]
  have Gy: "q dvd (y2 - y4) * (x5 - x1) * (x4 * (x2 - x4)^2 - ((y2 - y4)^2 - (x4 + x2) * (x2 - x4)^2))
       - y4 * ((x2 - x4)^3 * (x5 - x1))
       - (y5 - y1) * (x2 - x4) * (x1 * (x2 - x4)^2 - ((y2 - y4)^2 - (x4 + x2) * (x2 - x4)^2))
       + y1 * ((x2 - x4)^3 * (x5 - x1))" .
  have X: "q dvd x6 - (u^2 - (x4 + x2))" using u(2) by algebra
  from glue_y[OF pr n42 n15 u(1) v(1) X Gy]
  have "q dvd (u * (x4 - x6) - y4) - (v * (x1 - x6) - y1)" .
  then show "q dvd y6 - y7" using u(3) v(3) x67 by algebra
qed

lemma assoc_trp:
  fixes q :: int
  assumes pr: "is_prime q"
    and M: "tangent q a x2 y2 m x1 y1" and L: "chord q x1 y1 x2 y2 l x4 y4"
    and U: "chord q x4 y4 x2 y2 u x6 y6" and V: "tangent q a x1 y1 v x7 y7"
    and n42: "\<not> q dvd x2 - x4" and n1: "\<not> q dvd 2 * y1"
  shows "q dvd x6 - x7" "q dvd y6 - y7"
proof -
  note l = chordD[OF L] and m = tangentD[OF M] and u = chordD[OF U] and v = tangentD[OF V]
  define A where "A = m * (2 * y2) - 3 * x2^2"
  define X1 where "X1 = m^2 - x2 - x2"
  define Y1 where "Y1 = m * (x2 - X1) - y2"
  define X4 where "X4 = l^2 - X1 - x2"
  define Y4 where "Y4 = l * (X1 - X4) - Y1"
  have cA: "cg q a A" unfolding A_def cg_def using m(1) by algebra
  have cX1: "cg q x1 X1" unfolding X1_def using m(2) by (rule dvd_cg)
  have cY1: "cg q y1 Y1" unfolding Y1_def
    by (rule cg_trans[OF dvd_cg[OF m(3)]]) (intro cg_intros cg_refl cX1)
  have cX4: "cg q x4 X4" unfolding X4_def
    by (rule cg_trans[OF dvd_cg[OF l(2)]]) (intro cg_intros cg_refl cX1)
  have cY4: "cg q y4 Y4" unfolding Y4_def
    by (rule cg_trans[OF dvd_cg[OF l(3)]]) (intro cg_intros cg_refl cX4 cX1 cY1)
  have "cg q (l * (x2 - x1) - (y2 - y1)) (l * (x2 - X1) - (y2 - Y1))"
    by (intro cg_intros cg_refl cX1 cY1)
  from cg_dvd[OF this l(1)] have R: "q dvd l * (x2 - X1) - (y2 - Y1)" .
  note core = A_def X1_def Y1_def X4_def Y4_def R
  note sy = cg_sym[OF cA] cg_sym[OF cX1] cg_sym[OF cY1] cg_sym[OF cX4] cg_sym[OF cY4]
  have "cg q ((y2 - Y4)^2 * (2 * Y1)^2 - (3 * X1^2 + A)^2 * (x2 - X4)^2
             - (X4 + x2 - X1 - X1) * ((x2 - X4)^2 * (2 * Y1)^2))
     ((y2 - y4)^2 * (2 * y1)^2 - (3 * x1^2 + a)^2 * (x2 - x4)^2
             - (x4 + x2 - x1 - x1) * ((x2 - x4)^2 * (2 * y1)^2))"
    by (intro cg_intros cg_refl sy)
  from cg_dvd[OF this trp_x[OF core]]
  have Gx: "q dvd (y2 - y4)^2 * (2 * y1)^2 - (3 * x1^2 + a)^2 * (x2 - x4)^2
             - (x4 + x2 - x1 - x1) * ((x2 - x4)^2 * (2 * y1)^2)" .
  from glue_x[OF pr n42 n1 u(1) v(1) Gx]
  have "q dvd u^2 - v^2 - (x4 + x2 - x1 - x1)" .
  then show x67: "q dvd x6 - x7" using u(2) v(2) by algebra
  have "cg q ((y2 - Y4) * (2 * Y1) * (X4 * (x2 - X4)^2 - ((y2 - Y4)^2 - (X4 + x2) * (x2 - X4)^2))
       - Y4 * ((x2 - X4)^3 * (2 * Y1))
       - (3 * X1^2 + A) * (x2 - X4) * (X1 * (x2 - X4)^2 - ((y2 - Y4)^2 - (X4 + x2) * (x2 - X4)^2))
       + Y1 * ((x2 - X4)^3 * (2 * Y1)))
     ((y2 - y4) * (2 * y1) * (x4 * (x2 - x4)^2 - ((y2 - y4)^2 - (x4 + x2) * (x2 - x4)^2))
       - y4 * ((x2 - x4)^3 * (2 * y1))
       - (3 * x1^2 + a) * (x2 - x4) * (x1 * (x2 - x4)^2 - ((y2 - y4)^2 - (x4 + x2) * (x2 - x4)^2))
       + y1 * ((x2 - x4)^3 * (2 * y1)))"
    by (intro cg_intros cg_refl sy)
  from cg_dvd[OF this trp_y[OF core]]
  have Gy: "q dvd (y2 - y4) * (2 * y1) * (x4 * (x2 - x4)^2 - ((y2 - y4)^2 - (x4 + x2) * (x2 - x4)^2))
       - y4 * ((x2 - x4)^3 * (2 * y1))
       - (3 * x1^2 + a) * (x2 - x4) * (x1 * (x2 - x4)^2 - ((y2 - y4)^2 - (x4 + x2) * (x2 - x4)^2))
       + y1 * ((x2 - x4)^3 * (2 * y1))" .
  have X: "q dvd x6 - (u^2 - (x4 + x2))" using u(2) by algebra
  from glue_y[OF pr n42 n1 u(1) v(1) X Gy]
  have "q dvd (u * (x4 - x6) - y4) - (v * (x1 - x6) - y1)" .
  then show "q dvd y6 - y7" using u(3) v(3) x67 by algebra
qed

section \<open>Associativity of the addition of points\<close>

lemma rpoint_eqI:
  assumes "ron q a b (RPt x y)" "ron q a b (RPt x' y')" "q dvd x - x'" "q dvd y - y'"
  shows "RPt x y = RPt x' y'"
proof -
  note r = ron_reduced[OF assms(1)] and r' = ron_reduced[OF assms(2)]
  have "x = x'" using cg_reduced_eq[OF dvd_cg[OF assms(3)] r(1,2) r'(1,2)] .
  moreover have "y = y'" using cg_reduced_eq[OF dvd_cg[OF assms(4)] r(3,4) r'(3,4)] .
  ultimately show ?thesis by simp
qed

text \<open>All four additions are chords.\<close>

lemma radd_assoc_chords:
  assumes ok: "ec_ok q a b"
    and P1: "ron q a b (RPt x1 y1)" and P2: "ron q a b (RPt x2 y2)" and P3: "ron q a b (RPt x3 y3)"
    and s12: "radd q a (RPt x1 y1) (RPt x2 y2) = RPt x4 y4"
    and s23: "radd q a (RPt x2 y2) (RPt x3 y3) = RPt x5 y5"
    and n12: "x1 \<noteq> x2" and n23: "x2 \<noteq> x3" and n43: "x4 \<noteq> x3" and n15: "x1 \<noteq> x5"
  shows "radd q a (RPt x1 y1) (RPt x5 y5) = radd q a (RPt x4 y4) (RPt x3 y3)"
proof -
  have pr: "is_prime q" using ec_ok_prime[OF ok] .
  obtain l x4' y4' where a: "radd q a (RPt x1 y1) (RPt x2 y2) = RPt x4' y4'"
    "chord q x1 y1 x2 y2 l x4' y4'" "ron q a b (RPt x4' y4')"
    by (rule radd_chordE[OF ok P1 P2 n12])
  then have L: "chord q x1 y1 x2 y2 l x4 y4" and P4: "ron q a b (RPt x4 y4)" using s12 by simp_all
  obtain m x5' y5' where b: "radd q a (RPt x2 y2) (RPt x3 y3) = RPt x5' y5'"
    "chord q x2 y2 x3 y3 m x5' y5'" "ron q a b (RPt x5' y5')"
    by (rule radd_chordE[OF ok P2 P3 n23])
  then have M: "chord q x2 y2 x3 y3 m x5 y5" and P5: "ron q a b (RPt x5 y5)" using s23 by simp_all
  obtain u x6 y6 where U: "radd q a (RPt x4 y4) (RPt x3 y3) = RPt x6 y6"
    "chord q x4 y4 x3 y3 u x6 y6" "ron q a b (RPt x6 y6)"
    by (rule radd_chordE[OF ok P4 P3 n43])
  obtain v x7 y7 where V: "radd q a (RPt x1 y1) (RPt x5 y5) = RPt x7 y7"
    "chord q x1 y1 x5 y5 v x7 y7" "ron q a b (RPt x7 y7)"
    by (rule radd_chordE[OF ok P1 P5 n15])
  note g = assoc_gen[OF pr ron_curve[OF P1] ron_curve[OF P2] ron_curve[OF P3] L M U(2) V(2)
      ron_ne[OF P1 P2 n12] ron_ne[OF P2 P3 n23] ron_ne[OF P4 P3 n43] ron_ne[OF P1 P5 n15]]
  have "RPt x6 y6 = RPt x7 y7" by (rule rpoint_eqI[OF U(3) V(3) g])
  then show ?thesis using U(1) V(1) by simp
qed

text \<open>The second and third points coincide.\<close>

lemma radd_assoc_chord_double:
  assumes ok: "ec_ok q a b"
    and P1: "ron q a b (RPt x1 y1)" and P2: "ron q a b (RPt x2 y2)"
    and s12: "radd q a (RPt x1 y1) (RPt x2 y2) = RPt x4 y4"
    and s22: "radd q a (RPt x2 y2) (RPt x2 y2) = RPt x5 y5"
    and n12: "x1 \<noteq> x2" and y2: "y2 \<noteq> 0" and n42: "x4 \<noteq> x2" and n15: "x1 \<noteq> x5"
  shows "radd q a (RPt x1 y1) (RPt x5 y5) = radd q a (RPt x4 y4) (RPt x2 y2)"
proof -
  have pr: "is_prime q" using ec_ok_prime[OF ok] .
  obtain l x4' y4' where a: "radd q a (RPt x1 y1) (RPt x2 y2) = RPt x4' y4'"
    "chord q x1 y1 x2 y2 l x4' y4'" "ron q a b (RPt x4' y4')"
    by (rule radd_chordE[OF ok P1 P2 n12])
  then have L: "chord q x1 y1 x2 y2 l x4 y4" and P4: "ron q a b (RPt x4 y4)" using s12 by simp_all
  obtain m x5' y5' where b: "radd q a (RPt x2 y2) (RPt x2 y2) = RPt x5' y5'"
    "tangent q a x2 y2 m x5' y5'" "ron q a b (RPt x5' y5')"
    by (rule radd_tangentE[OF ok P2 y2])
  then have M: "tangent q a x2 y2 m x5 y5" and P5: "ron q a b (RPt x5 y5)" using s22 by simp_all
  obtain u x6 y6 where U: "radd q a (RPt x4 y4) (RPt x2 y2) = RPt x6 y6"
    "chord q x4 y4 x2 y2 u x6 y6" "ron q a b (RPt x6 y6)"
    by (rule radd_chordE[OF ok P4 P2 n42])
  obtain v x7 y7 where V: "radd q a (RPt x1 y1) (RPt x5 y5) = RPt x7 y7"
    "chord q x1 y1 x5 y5 v x7 y7" "ron q a b (RPt x7 y7)"
    by (rule radd_chordE[OF ok P1 P5 n15])
  note g = assoc_dbl[OF pr ron_curve[OF P1] ron_curve[OF P2] L M U(2) V(2)
      ron_ne[OF P1 P2 n12] ron_ne[OF P4 P2 n42] ron_ne[OF P1 P5 n15]]
  have "RPt x6 y6 = RPt x7 y7" by (rule rpoint_eqI[OF U(3) V(3) g])
  then show ?thesis using U(1) V(1) by simp
qed

text \<open>The second and third points coincide and the first is their sum.\<close>

lemma radd_assoc_double_double:
  assumes ok: "ec_ok q a b"
    and P2: "ron q a b (RPt x2 y2)"
    and s22: "radd q a (RPt x2 y2) (RPt x2 y2) = RPt x1 y1"
    and s12: "radd q a (RPt x1 y1) (RPt x2 y2) = RPt x4 y4"
    and y2: "y2 \<noteq> 0" and n12: "x1 \<noteq> x2" and n42: "x4 \<noteq> x2" and y1: "y1 \<noteq> 0"
  shows "radd q a (RPt x1 y1) (RPt x1 y1) = radd q a (RPt x4 y4) (RPt x2 y2)"
proof -
  have pr: "is_prime q" using ec_ok_prime[OF ok] .
  obtain m x1' y1' where b: "radd q a (RPt x2 y2) (RPt x2 y2) = RPt x1' y1'"
    "tangent q a x2 y2 m x1' y1'" "ron q a b (RPt x1' y1')"
    by (rule radd_tangentE[OF ok P2 y2])
  then have M: "tangent q a x2 y2 m x1 y1" and P1: "ron q a b (RPt x1 y1)" using s22 by simp_all
  obtain l x4' y4' where a: "radd q a (RPt x1 y1) (RPt x2 y2) = RPt x4' y4'"
    "chord q x1 y1 x2 y2 l x4' y4'" "ron q a b (RPt x4' y4')"
    by (rule radd_chordE[OF ok P1 P2 n12])
  then have L: "chord q x1 y1 x2 y2 l x4 y4" and P4: "ron q a b (RPt x4 y4)" using s12 by simp_all
  obtain u x6 y6 where U: "radd q a (RPt x4 y4) (RPt x2 y2) = RPt x6 y6"
    "chord q x4 y4 x2 y2 u x6 y6" "ron q a b (RPt x6 y6)"
    by (rule radd_chordE[OF ok P4 P2 n42])
  obtain v x7 y7 where V: "radd q a (RPt x1 y1) (RPt x1 y1) = RPt x7 y7"
    "tangent q a x1 y1 v x7 y7" "ron q a b (RPt x7 y7)"
    by (rule radd_tangentE[OF ok P1 y1])
  note g = assoc_trp[OF pr M L U(2) V(2) ron_ne[OF P4 P2 n42] two_nz[OF ok ron_nz[OF P1 y1]]]
  have "RPt x6 y6 = RPt x7 y7" by (rule rpoint_eqI[OF U(3) V(3) g])
  then show ?thesis using U(1) V(1) by simp
qed

section \<open>Associativity with a doubling\<close>

lemma abscissa_ne:
  assumes pr: "is_prime q" and P1: "ron q a b (RPt x1 y1)" and P2: "ron q a b (RPt x2 y2)"
    and n: "RPt x1 y1 \<noteq> RPt x2 y2" and n': "RPt x1 y1 \<noteq> rneg q (RPt x2 y2)"
  shows "x1 \<noteq> x2"
proof
  assume e: "x1 = x2"
  from same_x[OF pr P2 P1[unfolded e]] have "y1 = y2 \<or> y1 = (- y2) mod q" .
  then show False using n n' e by (auto simp: rneg_def)
qed

lemma radd_not_RInf:
  assumes ok: "ec_ok q a b" and P1: "ron q a b P1" and P2: "ron q a b P2"
    and n: "P1 \<noteq> rneg q P2"
  shows "radd q a P1 P2 \<noteq> RInf"
proof
  assume "radd q a P1 P2 = RInf"
  from radd_eq_RInf[OF ok P1 P2 this] have "P2 = rneg q P1" .
  then have "rneg q P2 = P1" using rneg_rneg[OF P1] by simp
  then show False using n by simp
qed

lemma rneg_ne_self:
  assumes ok: "ec_ok q a b" and P: "ron q a b (RPt x y)" and n: "RPt x y \<noteq> rneg q (RPt x y)"
  shows "y \<noteq> 0"
  using rneg_self_iff[OF ok P] n by auto

lemma affineE:
  assumes "P \<noteq> RInf" obtains x y where "P = RPt x y"
  using assms by (cases P) auto

text \<open>Associativity when the last two summands coincide: the case of \<open>P1 = 2 P2\<close>.\<close>

lemma radd_assoc_double_t:
  assumes ok: "ec_ok q a b" and P1: "ron q a b P1" and P2: "ron q a b P2"
    and t: "P1 \<noteq> RInf" "P2 \<noteq> RInf" "P1 \<noteq> rneg q P2" "P2 \<noteq> rneg q P2"
        "rneg q P1 \<noteq> radd q a P2 P2" "rneg q P2 \<noteq> radd q a P1 P2" "P1 = radd q a P2 P2"
  shows "radd q a P1 (radd q a P2 P2) = radd q a (radd q a P1 P2) P2"
proof -
  note cl = radd_closed[OF ok] and pr = ec_ok_prime[OF ok]
  obtain x1 y1 where p1: "P1 = RPt x1 y1" by (rule affineE[OF t(1)])
  obtain x2 y2 where p2: "P2 = RPt x2 y2" by (rule affineE[OF t(2)])
  note Q1 = P1[unfolded p1] and Q2 = P2[unfolded p2]
  obtain x4 y4 where p4: "radd q a P1 P2 = RPt x4 y4"
    by (rule affineE[OF radd_not_RInf[OF ok P1 P2 t(3)]])
  have Q4: "ron q a b (RPt x4 y4)" using cl[OF P1 P2] unfolding p4 .
  have y2: "y2 \<noteq> 0" by (rule rneg_ne_self[OF ok Q2 t(4)[unfolded p2]])
  have "P1 \<noteq> P2"
  proof
    assume "P1 = P2"
    then have "radd q a P2 P2 = P2" using t(7) by simp
    from radd_fixed_zero[OF ok P2 P2 this] t(2) show False by simp
  qed
  then have a12: "RPt x1 y1 \<noteq> RPt x2 y2" unfolding p1[symmetric] p2[symmetric] .
  have b12: "RPt x1 y1 \<noteq> rneg q (RPt x2 y2)"
    using t(3) unfolding p1[symmetric] p2[symmetric] .
  have n12: "x1 \<noteq> x2" by (rule abscissa_ne[OF pr Q1 Q2 a12 b12])
  have "radd q a P1 P2 \<noteq> P2" using radd_fixed_zero[OF ok P1 P2] t(1) by blast
  then have a42: "RPt x4 y4 \<noteq> RPt x2 y2" unfolding p4[symmetric] p2[symmetric] .
  have b42: "RPt x4 y4 \<noteq> rneg q (RPt x2 y2)"
    using t(6) unfolding p4[symmetric] p2[symmetric] by (rule not_sym)
  have n42: "x4 \<noteq> x2" by (rule abscissa_ne[OF pr Q4 Q2 a42 b42])
  have "P1 \<noteq> rneg q P1" using t(5,7) by metis
  then have y1: "y1 \<noteq> 0" unfolding p1 by (rule rneg_ne_self[OF ok Q1])
  have s22: "radd q a (RPt x2 y2) (RPt x2 y2) = RPt x1 y1"
    using t(7) unfolding p1[symmetric] p2[symmetric] by (rule sym)
  have s12: "radd q a (RPt x1 y1) (RPt x2 y2) = RPt x4 y4"
    using p4 unfolding p1[symmetric] p2[symmetric] .
  from radd_assoc_double_double[OF ok Q2 s22 s12 y2 n12 n42 y1]
  show ?thesis unfolding p1 p2 s22 s12 .
qed

lemma radd_assoc_double_g:
  assumes ok: "ec_ok q a b" and P1: "ron q a b P1" and P2: "ron q a b P2"
    and g: "P1 \<noteq> RInf" "P2 \<noteq> RInf" "P1 \<noteq> rneg q P2" "P2 \<noteq> rneg q P2"
        "rneg q P1 \<noteq> radd q a P2 P2" "rneg q P2 \<noteq> radd q a P1 P2" "P1 \<noteq> radd q a P2 P2"
        "P1 \<noteq> P2"
  shows "radd q a P1 (radd q a P2 P2) = radd q a (radd q a P1 P2) P2"
proof -
  note cl = radd_closed[OF ok] and pr = ec_ok_prime[OF ok]
  obtain x1 y1 where p1: "P1 = RPt x1 y1" by (rule affineE[OF g(1)])
  obtain x2 y2 where p2: "P2 = RPt x2 y2" by (rule affineE[OF g(2)])
  note Q1 = P1[unfolded p1] and Q2 = P2[unfolded p2]
  obtain x4 y4 where p4: "radd q a P1 P2 = RPt x4 y4"
    by (rule affineE[OF radd_not_RInf[OF ok P1 P2 g(3)]])
  obtain x5 y5 where p5: "radd q a P2 P2 = RPt x5 y5"
    by (rule affineE[OF radd_not_RInf[OF ok P2 P2 g(4)]])
  have Q4: "ron q a b (RPt x4 y4)" using cl[OF P1 P2] unfolding p4 .
  have Q5: "ron q a b (RPt x5 y5)" using cl[OF P2 P2] unfolding p5 .
  have y2: "y2 \<noteq> 0" by (rule rneg_ne_self[OF ok Q2 g(4)[unfolded p2]])
  have a12: "RPt x1 y1 \<noteq> RPt x2 y2" using g(8) unfolding p1[symmetric] p2[symmetric] .
  have b12: "RPt x1 y1 \<noteq> rneg q (RPt x2 y2)"
    using g(3) unfolding p1[symmetric] p2[symmetric] .
  have n12: "x1 \<noteq> x2" by (rule abscissa_ne[OF pr Q1 Q2 a12 b12])
  have "radd q a P1 P2 \<noteq> P2" using radd_fixed_zero[OF ok P1 P2] g(1) by blast
  then have a42: "RPt x4 y4 \<noteq> RPt x2 y2" unfolding p4[symmetric] p2[symmetric] .
  have b42: "RPt x4 y4 \<noteq> rneg q (RPt x2 y2)"
    using g(6) unfolding p4[symmetric] p2[symmetric] by (rule not_sym)
  have n42: "x4 \<noteq> x2" by (rule abscissa_ne[OF pr Q4 Q2 a42 b42])
  have b15: "RPt x1 y1 \<noteq> rneg q (RPt x5 y5)"
  proof
    assume "RPt x1 y1 = rneg q (RPt x5 y5)"
    then have "rneg q (RPt x1 y1) = RPt x5 y5" using rneg_rneg[OF Q5] by simp
    then show False using g(5) unfolding p1[symmetric] p5[symmetric] by simp
  qed
  have a15: "RPt x1 y1 \<noteq> RPt x5 y5" using g(7) unfolding p1[symmetric] p5[symmetric] .
  have n15: "x1 \<noteq> x5" by (rule abscissa_ne[OF pr Q1 Q5 a15 b15])
  have s12: "radd q a (RPt x1 y1) (RPt x2 y2) = RPt x4 y4"
    using p4 unfolding p1[symmetric] p2[symmetric] .
  have s22: "radd q a (RPt x2 y2) (RPt x2 y2) = RPt x5 y5"
    using p5 unfolding p2[symmetric] .
  from radd_assoc_chord_double[OF ok Q1 Q2 s12 s22 n12 y2 n42 n15]
  show ?thesis unfolding p1 p2 s22 s12 .
qed

lemma radd_assoc_double:
  assumes ok: "ec_ok q a b" and P1: "ron q a b P1" and P2: "ron q a b P2"
  shows "radd q a P1 (radd q a P2 P2) = radd q a (radd q a P1 P2) P2"
proof -
  note deg = radd_assoc_degenerate[OF ok P1 P2 P2]
  consider (d) "P1 = RInf \<or> P2 = RInf \<or> P2 = RInf \<or> P1 = rneg q P2 \<or> P2 = rneg q P2
        \<or> rneg q P1 = radd q a P2 P2 \<or> rneg q P2 = radd q a P1 P2"
    | (e) "P1 = P2"
    | (t) "P1 \<noteq> RInf" "P2 \<noteq> RInf" "P1 \<noteq> rneg q P2" "P2 \<noteq> rneg q P2"
        "rneg q P1 \<noteq> radd q a P2 P2" "rneg q P2 \<noteq> radd q a P1 P2" "P1 = radd q a P2 P2"
    | (g) "P1 \<noteq> RInf" "P2 \<noteq> RInf" "P1 \<noteq> rneg q P2" "P2 \<noteq> rneg q P2"
        "rneg q P1 \<noteq> radd q a P2 P2" "rneg q P2 \<noteq> radd q a P1 P2" "P1 \<noteq> radd q a P2 P2"
        "P1 \<noteq> P2"
    by blast
  then show ?thesis
  proof cases
    case d then show ?thesis by (rule deg)
  next
    case e then show ?thesis using radd_comm[OF ok P2 radd_closed[OF ok P2 P2]] by simp
  next
    case t from radd_assoc_double_t[OF ok P1 P2 t] show ?thesis .
  next
    case g from radd_assoc_double_g[OF ok P1 P2 g] show ?thesis .
  qed
qed

section \<open>Associativity\<close>

lemma radd_assoc_g:
  assumes ok: "ec_ok q a b" and P1: "ron q a b P1" and P2: "ron q a b P2" and P3: "ron q a b P3"
    and g: "P1 \<noteq> RInf" "P2 \<noteq> RInf" "P3 \<noteq> RInf" "P1 \<noteq> rneg q P2" "P2 \<noteq> rneg q P3"
        "rneg q P1 \<noteq> radd q a P2 P3" "rneg q P3 \<noteq> radd q a P1 P2"
        "P1 \<noteq> P2" "P2 \<noteq> P3" "P1 \<noteq> radd q a P2 P3" "P3 \<noteq> radd q a P1 P2"
  shows "radd q a P1 (radd q a P2 P3) = radd q a (radd q a P1 P2) P3"
proof -
  note cl = radd_closed[OF ok] and pr = ec_ok_prime[OF ok]
  obtain x1 y1 where p1: "P1 = RPt x1 y1" by (rule affineE[OF g(1)])
  obtain x2 y2 where p2: "P2 = RPt x2 y2" by (rule affineE[OF g(2)])
  obtain x3 y3 where p3: "P3 = RPt x3 y3" by (rule affineE[OF g(3)])
  note Q1 = P1[unfolded p1] and Q2 = P2[unfolded p2] and Q3 = P3[unfolded p3]
  obtain x4 y4 where p4: "radd q a P1 P2 = RPt x4 y4"
    by (rule affineE[OF radd_not_RInf[OF ok P1 P2 g(4)]])
  obtain x5 y5 where p5: "radd q a P2 P3 = RPt x5 y5"
    by (rule affineE[OF radd_not_RInf[OF ok P2 P3 g(5)]])
  have Q4: "ron q a b (RPt x4 y4)" using cl[OF P1 P2] unfolding p4 .
  have Q5: "ron q a b (RPt x5 y5)" using cl[OF P2 P3] unfolding p5 .
  have a12: "RPt x1 y1 \<noteq> RPt x2 y2" using g(8) unfolding p1[symmetric] p2[symmetric] .
  have b12: "RPt x1 y1 \<noteq> rneg q (RPt x2 y2)" using g(4) unfolding p1[symmetric] p2[symmetric] .
  have n12: "x1 \<noteq> x2" by (rule abscissa_ne[OF pr Q1 Q2 a12 b12])
  have a23: "RPt x2 y2 \<noteq> RPt x3 y3" using g(9) unfolding p2[symmetric] p3[symmetric] .
  have b23: "RPt x2 y2 \<noteq> rneg q (RPt x3 y3)" using g(5) unfolding p2[symmetric] p3[symmetric] .
  have n23: "x2 \<noteq> x3" by (rule abscissa_ne[OF pr Q2 Q3 a23 b23])
  have a43: "RPt x4 y4 \<noteq> RPt x3 y3"
    using g(11) unfolding p4[symmetric] p3[symmetric] by (rule not_sym)
  have b43: "RPt x4 y4 \<noteq> rneg q (RPt x3 y3)"
    using g(7) unfolding p4[symmetric] p3[symmetric] by (rule not_sym)
  have n43: "x4 \<noteq> x3" by (rule abscissa_ne[OF pr Q4 Q3 a43 b43])
  have a15: "RPt x1 y1 \<noteq> RPt x5 y5" using g(10) unfolding p1[symmetric] p5[symmetric] .
  have b15: "RPt x1 y1 \<noteq> rneg q (RPt x5 y5)"
  proof
    assume "RPt x1 y1 = rneg q (RPt x5 y5)"
    then have "rneg q (RPt x1 y1) = RPt x5 y5" using rneg_rneg[OF Q5] by simp
    then show False using g(6) unfolding p1[symmetric] p5[symmetric] by simp
  qed
  have n15: "x1 \<noteq> x5" by (rule abscissa_ne[OF pr Q1 Q5 a15 b15])
  have s12: "radd q a (RPt x1 y1) (RPt x2 y2) = RPt x4 y4"
    using p4 unfolding p1[symmetric] p2[symmetric] .
  have s23: "radd q a (RPt x2 y2) (RPt x3 y3) = RPt x5 y5"
    using p5 unfolding p2[symmetric] p3[symmetric] .
  from radd_assoc_chords[OF ok Q1 Q2 Q3 s12 s23 n12 n23 n43 n15]
  show ?thesis unfolding p1 p2 p3 s12 s23 .
qed

text \<open>The addition of the points of a curve is associative.\<close>

lemma radd_assoc:
  assumes ok: "ec_ok q a b" and P1: "ron q a b P1" and P2: "ron q a b P2" and P3: "ron q a b P3"
  shows "radd q a P1 (radd q a P2 P3) = radd q a (radd q a P1 P2) P3"
proof -
  note deg = radd_assoc_degenerate[OF ok P1 P2 P3]
  note cl = radd_closed[OF ok] and pr = ec_ok_prime[OF ok] and ng = ron_rneg[OF ok]
  note cm = radd_comm[OF ok]
  consider (d) "P1 = RInf \<or> P2 = RInf \<or> P3 = RInf \<or> P1 = rneg q P2 \<or> P2 = rneg q P3
        \<or> rneg q P1 = radd q a P2 P3 \<or> rneg q P3 = radd q a P1 P2"
    | (e12) "P1 = P2" | (e23) "P2 = P3"
    | (s1) "P1 = radd q a P2 P3" | (s3) "P3 = radd q a P1 P2"
    | (g) "P1 \<noteq> RInf" "P2 \<noteq> RInf" "P3 \<noteq> RInf" "P1 \<noteq> rneg q P2" "P2 \<noteq> rneg q P3"
        "rneg q P1 \<noteq> radd q a P2 P3" "rneg q P3 \<noteq> radd q a P1 P2"
        "P1 \<noteq> P2" "P2 \<noteq> P3" "P1 \<noteq> radd q a P2 P3" "P3 \<noteq> radd q a P1 P2"
    by blast
  then show ?thesis
  proof cases
    case d then show ?thesis by (rule deg)
  next
    case e12
    have "radd q a P2 (radd q a P2 P3) = radd q a (radd q a P3 P2) P2"
      using cm[OF P2 cl[OF P2 P3]] cm[OF P2 P3] by simp
    also have "\<dots> = radd q a P3 (radd q a P2 P2)" using radd_assoc_double[OF ok P3 P2] by simp
    also have "\<dots> = radd q a (radd q a P2 P2) P3" by (rule cm[OF P3 cl[OF P2 P2]])
    finally show ?thesis using e12 by simp
  next
    case e23 then show ?thesis using radd_assoc_double[OF ok P1 P2] by simp
  next
    case s1
    define S where "S = radd q a P2 P3"
    have S: "ron q a b S" unfolding S_def by (rule cl[OF P2 P3])
    have a1: "radd q a (rneg q P3) S = P2"
      using cm[OF ng[OF P3] S] radd_minus_id[OF ok P2 P3] by (simp add: S_def)
    have "radd q a (rneg q P3) (radd q a S S) = radd q a (radd q a (rneg q P3) S) S"
      by (rule radd_assoc_double[OF ok ng[OF P3] S])
    also have "\<dots> = radd q a S P2" using a1 cm[OF P2 S] by simp
    also have "\<dots> = radd q a (radd q a (radd q a S P2) P3) (rneg q P3)"
      using radd_minus_id[OF ok cl[OF S P2] P3] by simp
    also have "\<dots> = radd q a (rneg q P3) (radd q a (radd q a S P2) P3)"
      by (rule cm[OF cl[OF cl[OF S P2] P3] ng[OF P3]])
    finally have "radd q a S S = radd q a (radd q a S P2) P3"
      by (rule radd_cancel[OF ok ng[OF P3] cl[OF S S] cl[OF cl[OF S P2] P3]])
    then show ?thesis using s1 by (simp add: S_def)
  next
    case s3
    define S where "S = radd q a P1 P2"
    have S: "ron q a b S" unfolding S_def by (rule cl[OF P1 P2])
    define X where "X = radd q a P2 S"
    have X: "ron q a b X" unfolding X_def by (rule cl[OF P2 S])
    have a1: "radd q a (rneg q P1) S = P2"
      using cm[OF ng[OF P1] S] cm[OF P1 P2] radd_minus_id[OF ok P2 P1] by (simp add: S_def)
    have "radd q a (rneg q P1) (radd q a S S) = radd q a (radd q a (rneg q P1) S) S"
      by (rule radd_assoc_double[OF ok ng[OF P1] S])
    also have "\<dots> = X" using a1 by (simp add: X_def)
    also have "\<dots> = radd q a (radd q a X P1) (rneg q P1)"
      using radd_minus_id[OF ok X P1] by simp
    also have "\<dots> = radd q a (rneg q P1) (radd q a P1 X)"
      using cm[OF cl[OF X P1] ng[OF P1]] cm[OF X P1] by simp
    finally have "radd q a S S = radd q a P1 X"
      by (rule radd_cancel[OF ok ng[OF P1] cl[OF S S] cl[OF P1 X]])
    then show ?thesis using s3 by (simp add: S_def X_def)
  next
    case g from radd_assoc_g[OF ok P1 P2 P3 g] show ?thesis .
  qed
qed


section \<open>Multiples in a group of points\<close>

lemma rgroupD:
  assumes "rgroup q a gd"
  shows "gd RInf"
    and "\<And>P Q. gd P \<Longrightarrow> gd Q \<Longrightarrow> gd (radd q a P Q)"
    and "\<And>P Q. gd P \<Longrightarrow> gd Q \<Longrightarrow> radd q a P Q = radd q a Q P"
    and "\<And>P. gd P \<Longrightarrow> gd (rneg q P)"
    and "\<And>P. gd P \<Longrightarrow> radd q a P (rneg q P) = RInf"
    and "\<And>P Q R. gd P \<Longrightarrow> gd Q \<Longrightarrow> gd R \<Longrightarrow>
            radd q a P (radd q a Q R) = radd q a (radd q a P Q) R"
  using assms unfolding rgroup_def by blast+

lemma rmul_closed:
  assumes G: "rgroup q a gd" and P: "gd P"
  shows "gd (rmul q a n P)"
  by (induction n) (simp_all add: rgroupD(1,2)[OF G] P)

lemma rmul_one [simp]: "rmul q a (Suc 0) P = P" by simp

lemma rmul_add:
  assumes G: "rgroup q a gd" and P: "gd P"
  shows "rmul q a (m + n) P = radd q a (rmul q a m P) (rmul q a n P)"
proof (induction m)
  case 0 show ?case by simp
next
  case (Suc m)
  note c = rmul_closed[OF G P]
  have "rmul q a (Suc m + n) P = radd q a P (radd q a (rmul q a m P) (rmul q a n P))"
    using Suc by simp
  also have "\<dots> = radd q a (radd q a P (rmul q a m P)) (rmul q a n P)"
    by (rule rgroupD(6)[OF G P c c])
  finally show ?case by simp
qed

lemma rmul_two:
  assumes G: "rgroup q a gd" and P: "gd P"
  shows "radd q a (rmul q a n P) (rmul q a n P) = rmul q a (2 * n) P"
  using rmul_add[OF G P, of n n] by (simp add: mult_2)

lemma rmul_mult:
  assumes G: "rgroup q a gd" and P: "gd P"
  shows "rmul q a (m * n) P = rmul q a m (rmul q a n P)"
proof (induction m)
  case 0 show ?case by simp
next
  case (Suc m)
  have "rmul q a (Suc m * n) P = rmul q a (n + m * n) P" by simp
  also have "\<dots> = radd q a (rmul q a n P) (rmul q a (m * n) P)" by (rule rmul_add[OF G P])
  finally show ?case using Suc by simp
qed

lemma rmul_RInf [simp]: "rmul q a n RInf = RInf"
  by (induction n) simp_all

text \<open>Subtracting a smaller multiple.\<close>

lemma rmul_diff:
  assumes G: "rgroup q a gd" and P: "gd P" and le: "n \<le> m"
  shows "radd q a (rmul q a m P) (rneg q (rmul q a n P)) = rmul q a (m - n) P"
proof -
  note c = rmul_closed[OF G P]
  have "rmul q a m P = radd q a (rmul q a (m - n) P) (rmul q a n P)"
    using rmul_add[OF G P, of "m - n" n] le by simp
  then have "radd q a (rmul q a m P) (rneg q (rmul q a n P))
      = radd q a (radd q a (rmul q a (m - n) P) (rmul q a n P)) (rneg q (rmul q a n P))" by simp
  also have "\<dots> = radd q a (rmul q a (m - n) P) (radd q a (rmul q a n P) (rneg q (rmul q a n P)))"
    by (rule rgroupD(6)[OF G c c rgroupD(4)[OF G c], symmetric])
  also have "\<dots> = rmul q a (m - n) P" using rgroupD(5)[OF G c] by simp
  finally show ?thesis .
qed

section \<open>The double-and-add loop computes multiples\<close>

lemma nat_odd_half: "odd k \<Longrightarrow> 0 < k \<Longrightarrow> nat k = Suc (2 * nat (k div 2))" for k :: int
  by (elim oddE) (auto simp: nat_add_distrib nat_mult_distrib)

lemma nat_even_half: "even k \<Longrightarrow> 0 < k \<Longrightarrow> nat k = 2 * nat (k div 2)" for k :: int
  by (elim evenE) (auto simp: nat_mult_distrib)

lemma pt_simps [simp]:
  "pt c RInf = infinity c"
  "pt c (RPt x y) = \<lparr>pt_curve = c, pt_x = Some x, pt_y = Some y\<rparr>"
  by (simp_all add: pt_def)

lemma pt_curve_pt [simp]: "pt_curve (pt c P) = c"
  by (cases P) (simp_all add: infinity_def)

lemma pt_inj: "pt c P = pt c Q \<Longrightarrow> P = Q"
  by (cases P; cases Q) (simp_all add: infinity_def)

lemma is_infinity_pt [simp]: "is_infinity (pt c P) \<longleftrightarrow> P = RInf"
  by (cases P) (simp_all add: infinity_def is_infinity_def)

lemma modelsD:
  assumes "models c gd"
  shows "\<And>P Q. gd P \<Longrightarrow> gd Q \<Longrightarrow> add (pt c P) (pt c Q) = Inr (pt c (radd (cv_p c) (cv_a c) P Q))"
    and "\<And>P. gd P \<Longrightarrow> neg (pt c P) = Inr (pt c (rneg (cv_p c) P))"
  using assms unfolding models_def by blast+

lemma scalar_loop_rmul:
  assumes G: "rgroup (cv_p c) (cv_a c) gd" and M: "models c gd"
  shows "gd Q \<Longrightarrow> gd B \<Longrightarrow> 0 \<le> k \<Longrightarrow>
     scalar_loop k (pt c Q) (pt c B) = Inr (pt c (radd (cv_p c) (cv_a c) Q (rmul (cv_p c) (cv_a c) (nat k) B)))"
proof (induction "nat k" arbitrary: k Q B rule: less_induct)
  case less
  let ?q = "cv_p c" and ?a = "cv_a c"
  show ?case
  proof (cases "k = 0")
    case True
    then show ?thesis by (subst scalar_loop.simps) simp
  next
    case False
    then have k: "0 < k" using less.prems(3) by simp
    define Q' where "Q' = (if odd k then radd ?q ?a Q B else Q)"
    define B' where "B' = radd ?q ?a B B"
    have gQ': "gd Q'" unfolding Q'_def using rgroupD(2)[OF G] less.prems(1,2) by simp
    have gB': "gd B'" unfolding B'_def using rgroupD(2)[OF G] less.prems(2) by simp
    have s1: "(if odd k then add (pt c Q) (pt c B) else Inr (pt c Q)) = Inr (pt c Q')"
      unfolding Q'_def using modelsD(1)[OF M less.prems(1,2)] by simp
    have s2: "double (pt c B) = Inr (pt c B')"
      unfolding B'_def double_def by (rule modelsD(1)[OF M less.prems(2,2)])
    have lt: "nat (k div 2) < nat k" using k by simp
    have IH: "scalar_loop (k div 2) (pt c Q') (pt c B')
        = Inr (pt c (radd ?q ?a Q' (rmul ?q ?a (nat (k div 2)) B')))"
      using less.hyps[OF lt gQ' gB'] k by simp
    have B2: "B' = rmul ?q ?a 2 B" unfolding B'_def by (simp add: numeral_2_eq_2)
    have m2: "rmul ?q ?a (nat (k div 2)) B' = rmul ?q ?a (2 * nat (k div 2)) B"
      unfolding B2 using rmul_mult[OF G less.prems(2), of "nat (k div 2)" 2] by (simp add: mult.commute)
    note cB = rmul_closed[OF G less.prems(2)]
    have "radd ?q ?a Q' (rmul ?q ?a (2 * nat (k div 2)) B) = radd ?q ?a Q (rmul ?q ?a (nat k) B)"
    proof (cases "odd k")
      case True
      then have e: "nat k = Suc (2 * nat (k div 2))" using k by (rule nat_odd_half)
      have "radd ?q ?a (radd ?q ?a Q B) (rmul ?q ?a (2 * nat (k div 2)) B)
          = radd ?q ?a Q (radd ?q ?a B (rmul ?q ?a (2 * nat (k div 2)) B))"
        by (rule rgroupD(6)[OF G less.prems(1,2) cB, symmetric])
      then show ?thesis using True unfolding Q'_def e by simp
    next
      case False
      then have e: "nat k = 2 * nat (k div 2)" using k by (simp add: nat_even_half)
      show ?thesis using False unfolding Q'_def e by simp
    qed
    then show ?thesis
      using k s1 s2 IH m2 by (subst scalar_loop.simps) simp
  qed
qed

section \<open>The windowed-NAF path computes multiples\<close>

lemma odds_Suc: "odds c P (Suc j) = odds c P j @ [pt c (rmul (cv_p c) (cv_a c) (2 * j + 1) P)]"
  by (simp add: odds_def)

lemma odds_nth: "i < j \<Longrightarrow> odds c P j ! i = pt c (rmul (cv_p c) (cv_a c) (2 * i + 1) P)"
  by (simp add: odds_def)

lemma length_odds [simp]: "length (odds c P j) = j" by (simp add: odds_def)

lemma precomp_loop_rmul:
  assumes G: "rgroup (cv_p c) (cv_a c) gd" and M: "models c gd" and P: "gd P"
  shows "precomp_loop m (pt c (rmul (cv_p c) (cv_a c) 2 P)) (odds c P (Suc j))
           = Inr (odds c P (Suc (j + m)))"
proof (induction m arbitrary: j)
  case 0 show ?case by simp
next
  case (Suc m)
  let ?q = "cv_p c" and ?a = "cv_a c"
  note cl = rmul_closed[OF G P]
  have l: "last (odds c P (Suc j)) = pt c (rmul ?q ?a (2 * j + 1) P)"
    unfolding odds_Suc by simp
  have "add (pt c (rmul ?q ?a (2 * j + 1) P)) (pt c (rmul ?q ?a 2 P))
      = Inr (pt c (radd ?q ?a (rmul ?q ?a (2 * j + 1) P) (rmul ?q ?a 2 P)))"
    by (rule modelsD(1)[OF M cl cl])
  also have "radd ?q ?a (rmul ?q ?a (2 * j + 1) P) (rmul ?q ?a 2 P) = rmul ?q ?a (2 * Suc j + 1) P"
    using rmul_add[OF G P, of "2 * j + 1" 2] by (simp add: add.commute)
  finally have a: "add (last (odds c P (Suc j))) (pt c (rmul ?q ?a 2 P))
      = Inr (pt c (rmul ?q ?a (2 * Suc j + 1) P))" unfolding l .
  have "precomp_loop (Suc m) (pt c (rmul ?q ?a 2 P)) (odds c P (Suc j))
      = precomp_loop m (pt c (rmul ?q ?a 2 P)) (odds c P (Suc (Suc j)))"
    using a by (simp add: odds_Suc[of c P "Suc j"])
  then show ?case using Suc[of "Suc j"] by simp
qed

lemma wnaf_accumulate_append:
  "wnaf_accumulate pre (xs @ ys) Q =
     (case wnaf_accumulate pre xs Q of Inl e \<Rightarrow> Inl e | Inr Q' \<Rightarrow> wnaf_accumulate pre ys Q')"
  by (induction xs arbitrary: Q) (auto simp: Let_def split: sum.splits)

lemma wnaf_digit_5:
  assumes "odd k"
  shows "odd (wnaf_digit 5 k)" "- 15 \<le> wnaf_digit 5 k" "wnaf_digit 5 k \<le> 15"
proof -
  define z where "z = k mod 32"
  have z: "0 \<le> z" "z < 32" "odd z" using assms by (simp_all add: z_def dvd_mod_iff)
  have d: "wnaf_digit 5 k = (if z > 16 then z - 32 else z)"
    by (simp add: wnaf_digit_def Let_def z_def)
  show "odd (wnaf_digit 5 k)" using z d by simp
  show "- 15 \<le> wnaf_digit 5 k" using z d by (cases "z > 16") auto
  have "z \<noteq> 16" using z(3) by auto
  then show "wnaf_digit 5 k \<le> 15" using z d by (cases "z > 16") auto
qed

text \<open>One round of the accumulation, on a multiple of \<open>P\<close>.\<close>

lemma wnaf_accumulate_step:
  assumes G: "rgroup (cv_p c) (cv_a c) gd" and M: "models c gd" and P: "gd P"
    and d: "d = 0 \<or> (odd d \<and> - 15 \<le> d \<and> d \<le> 15)"
    and pos: "0 \<le> 2 * int m + d"
  shows "wnaf_accumulate (odds c P 8) [d] (pt c (rmul (cv_p c) (cv_a c) m P))
           = Inr (pt c (rmul (cv_p c) (cv_a c) (nat (2 * int m + d)) P))"
proof -
  let ?q = "cv_p c" and ?a = "cv_a c"
  note cl = rmul_closed[OF G P]
  have dbl: "double (pt c (rmul ?q ?a m P)) = Inr (pt c (rmul ?q ?a (2 * m) P))"
    unfolding double_def using modelsD(1)[OF M cl cl, of m m] rmul_two[OF G P, of m] by simp
  show ?thesis
  proof (cases "d = 0")
    case True
    then show ?thesis using dbl by (simp add: nat_mult_distrib)
  next
    case False
    then have dd: "odd d" "- 15 \<le> d" "d \<le> 15" using d by auto
    define i where "i = nat ((\<bar>d\<bar> - 1) div 2)"
    have i8: "i < 8" using dd by (auto simp: i_def)
    have ad: "nat \<bar>d\<bar> = 2 * i + 1"
    proof -
      have "odd \<bar>d\<bar>" using dd(1) by simp
      then obtain t where t: "\<bar>d\<bar> = 2 * t + 1" by (elim oddE)
      then have "0 \<le> t" by linarith
      then show ?thesis unfolding i_def t by (simp add: nat_add_distrib nat_mult_distrib)
    qed
    have nth: "odds c P 8 ! i = pt c (rmul ?q ?a (nat \<bar>d\<bar>) P)" using odds_nth[OF i8] ad by simp
    show ?thesis
    proof (cases "d > 0")
      case True
      have "add (pt c (rmul ?q ?a (2 * m) P)) (pt c (rmul ?q ?a (nat \<bar>d\<bar>) P))
          = Inr (pt c (radd ?q ?a (rmul ?q ?a (2 * m) P) (rmul ?q ?a (nat \<bar>d\<bar>) P)))"
        by (rule modelsD(1)[OF M cl cl])
      also have "radd ?q ?a (rmul ?q ?a (2 * m) P) (rmul ?q ?a (nat \<bar>d\<bar>) P)
          = rmul ?q ?a (2 * m + nat \<bar>d\<bar>) P" by (rule rmul_add[OF G P, symmetric])
      also have "2 * m + nat \<bar>d\<bar> = nat (2 * int m + d)" using True by simp
      finally show ?thesis using False True dbl nth i8 by (simp add: Let_def i_def)
    next
      case neg: False
      then have dneg: "d < 0" using False by simp
      have ng: "neg (pt c (rmul ?q ?a (nat \<bar>d\<bar>) P)) = Inr (pt c (rneg ?q (rmul ?q ?a (nat \<bar>d\<bar>) P)))"
        by (rule modelsD(2)[OF M cl])
      have le: "nat \<bar>d\<bar> \<le> 2 * m" using pos dneg by simp
      have "add (pt c (rmul ?q ?a (2 * m) P)) (pt c (rneg ?q (rmul ?q ?a (nat \<bar>d\<bar>) P)))
          = Inr (pt c (radd ?q ?a (rmul ?q ?a (2 * m) P) (rneg ?q (rmul ?q ?a (nat \<bar>d\<bar>) P))))"
        by (rule modelsD(1)[OF M cl rgroupD(4)[OF G cl]])
      also have "radd ?q ?a (rmul ?q ?a (2 * m) P) (rneg ?q (rmul ?q ?a (nat \<bar>d\<bar>) P))
          = rmul ?q ?a (2 * m - nat \<bar>d\<bar>) P" by (rule rmul_diff[OF G P le])
      also have "2 * m - nat \<bar>d\<bar> = nat (2 * int m + d)" using dneg pos by simp
      finally show ?thesis using False neg dbl nth i8 ng by (simp add: Let_def i_def)
    qed
  qed
qed

lemma wnaf_accumulate_rmul:
  assumes G: "rgroup (cv_p c) (cv_a c) gd" and M: "models c gd" and P: "gd P"
  shows "0 \<le> k \<Longrightarrow>
     wnaf_accumulate (odds c P 8) (rev (wnaf_digits 5 k)) (pt c RInf)
       = Inr (pt c (rmul (cv_p c) (cv_a c) (nat k) P))"
proof (induction "nat k" arbitrary: k rule: less_induct)
  case less
  let ?q = "cv_p c" and ?a = "cv_a c"
  show ?case
  proof (cases "k = 0")
    case True
    then show ?thesis by (subst wnaf_digits.simps) simp
  next
    case False
    then have k: "0 < k" using less.prems by simp
    define d where "d = (if odd k then wnaf_digit 5 k else 0)"
    define k1 where "k1 = (k - d) div 2"
    have dg: "wnaf_digits 5 k = d # wnaf_digits 5 k1"
      using k by (subst wnaf_digits.simps) (simp add: d_def k1_def)
    have dprop: "d = 0 \<or> (odd d \<and> - 15 \<le> d \<and> d \<le> 15)"
      using wnaf_digit_5[of k] by (simp add: d_def)
    have ev: "even (k - d)" using wnaf_digit_5(1)[of k] by (simp add: d_def)
    then have kd: "k = 2 * k1 + d" unfolding k1_def by simp
    have dk: "d \<le> k"
    proof (cases "odd k")
      case True
      have "wnaf_digit 5 k \<le> k mod 32" by (simp add: wnaf_digit_def Let_def)
      also have "\<dots> \<le> k" using k by (simp add: zmod_le_nonneg_dividend)
      finally show ?thesis using True by (simp add: d_def)
    next
      case False then show ?thesis using k by (simp add: d_def)
    qed
    then have k1: "0 \<le> k1" unfolding k1_def by simp
    have "- k < d" using dprop k
    proof (cases "odd k")
      case True
      define z where "z = k mod 32"
      have z: "0 \<le> z" "z \<le> k" using k by (simp_all add: z_def zmod_le_nonneg_dividend)
      have "d = (if z > 16 then z - 32 else z)" using True
        by (simp add: d_def wnaf_digit_def Let_def z_def)
      then show ?thesis using z k by (cases "z > 16") auto
    next
      case False then show ?thesis using k by (simp add: d_def)
    qed
    then have lt: "nat k1 < nat k" using k k1 kd by linarith
    have IH: "wnaf_accumulate (odds c P 8) (rev (wnaf_digits 5 k1)) (pt c RInf)
        = Inr (pt c (rmul ?q ?a (nat k1) P))" by (rule less.hyps[OF lt k1])
    have pos: "0 \<le> 2 * int (nat k1) + d" using kd k k1 by simp
    have "wnaf_accumulate (odds c P 8) [d] (pt c (rmul ?q ?a (nat k1) P))
        = Inr (pt c (rmul ?q ?a (nat (2 * int (nat k1) + d)) P))"
      by (rule wnaf_accumulate_step[OF G M P dprop pos])
    moreover have "nat (2 * int (nat k1) + d) = nat k" using kd k1 by simp
    ultimately show ?thesis unfolding dg using IH by (simp add: wnaf_accumulate_append)
  qed
qed

section \<open>The curve over an odd prime field as a group\<close>

lemma rgroup_ron:
  assumes ok: "ec_ok q a b"
  shows "rgroup q a (ron q a b)"
  unfolding rgroup_def
proof (intro conjI allI impI)
  show "ron q a b RInf" by simp
next
  fix P Q assume "ron q a b P" "ron q a b Q"
  then show "ron q a b (radd q a P Q)" "radd q a P Q = radd q a Q P"
    by (rule radd_closed[OF ok], rule radd_comm[OF ok])
next
  fix P assume "ron q a b P"
  then show "ron q a b (rneg q P)" "radd q a P (rneg q P) = RInf"
    by (rule ron_rneg[OF ok], rule radd_rneg[OF ok])
next
  fix P Q R assume "ron q a b P" "ron q a b Q" "ron q a b R"
  then show "radd q a P (radd q a Q R) = radd q a (radd q a P Q) R"
    by (rule radd_assoc[OF ok])
qed

lemma F_div_cg:
  assumes pr: "is_prime q" and nd: "\<not> q dvd j'" and cj: "cg q j j'" and ci: "cg q i i'"
  shows "\<exists>s. F_div q i j = Inr s \<and> cg q s (i' * rinv q j')"
proof -
  have q2: "2 \<le> q" using pr by (simp add: is_prime_def)
  have "\<not> q dvd j"
  proof
    assume "q dvd j"
    then have "q dvd j'" using cg_dvd[OF cj] by simp
    then show False using nd by simp
  qed
  then have "j mod q \<noteq> 0" by (simp add: dvd_eq_mod_eq_0)
  then have d: "F_div q i j = Inr ((i * (j ^ nat (q - 2) mod q)) mod q)"
    using q2 by (simp add: F_div_def F_inv_def F_mul_def)
  have "cg q (j ^ nat (q - 2) mod q) (j' ^ nat (q - 2) mod q)"
    by (rule cg_trans[OF cg_mod cg_trans[OF cg_power[OF cj] cg_mod2]])
  then have "cg q (i * (j ^ nat (q - 2) mod q)) (i' * rinv q j')"
    unfolding rinv_def by (intro cg_intros ci)
  then have "cg q ((i * (j ^ nat (q - 2) mod q)) mod q) (i' * rinv q j')"
    by (rule cg_trans[OF cg_mod])
  then show ?thesis using d by simp
qed

lemma mk_Point_ron:
  assumes q0: "0 < cv_p c" and on: "ron (cv_p c) (cv_a c) (cv_b c) (RPt x y)"
  shows "mk_Point c (Some x) (Some y) = Inr (pt c (RPt x y))"
proof -
  note r = ron_reduced[OF on]
  have "on_curve c x y" unfolding on_curve_def by (rule ron_curve[OF on])
  from mk_Point_on_curve[OF _ this] q0 r show ?thesis by simp
qed

lemma add_radd:
  assumes pr: "is_prime (cv_p c)" and od: "cv_p c \<noteq> 2"
    and P: "ron (cv_p c) (cv_a c) (cv_b c) P" and Q: "ron (cv_p c) (cv_a c) (cv_b c) Q"
  shows "add (pt c P) (pt c Q) = Inr (pt c (radd (cv_p c) (cv_a c) P Q))"
proof -
  let ?q = "cv_p c" and ?a = "cv_a c" and ?b = "cv_b c"
  have ok: "ec_ok ?q ?a ?b" using pr od by (simp add: ec_ok_def)
  have q0: "0 < ?q" using ec_ok_pos[OF ok] .
  show ?thesis
  proof (cases P)
    case RInf
    then show ?thesis by (simp add: add_def is_infinity_def infinity_def)
  next
    case p1: (RPt x1 y1)
    show ?thesis
    proof (cases Q)
      case RInf
      then show ?thesis using p1 by (simp add: add_def is_infinity_def infinity_def)
    next
      case p2: (RPt x2 y2)
      note Q1 = P[unfolded p1] and Q2 = Q[unfolded p2]
      note r1 = ron_reduced[OF Q1] and r2 = ron_reduced[OF Q2]
      show ?thesis
      proof (cases "x1 = x2 \<and> (y1 \<noteq> y2 \<or> y1 = 0)")
        case True
        then show ?thesis using p1 p2
          by (auto simp: add_def radd_def is_infinity_def infinity_def)
      next
        case False
        define l where "l = (if x1 = x2 then (3 * x1^2 + ?a) * rinv ?q (2 * y1)
                          else (y2 - y1) * rinv ?q (x2 - x1))"
        define x3 where "x3 = (l^2 - x1 - x2) mod ?q"
        define y3 where "y3 = (l * (x1 - x3) - y1) mod ?q"
        have res: "radd ?q ?a P Q = RPt x3 y3"
          using False p1 p2 by (simp add: radd_def Let_def l_def x3_def y3_def)
        have on3: "ron ?q ?a ?b (RPt x3 y3)" using radd_closed[OF ok P Q] res by simp
        have "\<exists>s. (if x1 = x2 \<and> y1 = y2
                   then F_div ?q (F_add ?q (F_mul ?q 3 (F_pow ?q x1 2)) ?a) (F_mul ?q 2 y1)
                   else F_div ?q (F_sub ?q y2 y1) (F_sub ?q x2 x1)) = Inr s \<and> cg ?q s l"
        proof (cases "x1 = x2")
          case True
          then have yy: "y1 = y2" "y1 \<noteq> 0" using False by auto
          have nd: "\<not> ?q dvd 2 * y1" using two_nz[OF ok ron_nz[OF Q1 yy(2)]] .
          have cj: "cg ?q (F_mul ?q 2 y1) (2 * y1)" unfolding F_mul_def by (rule cg_mod)
          have ci: "cg ?q (F_add ?q (F_mul ?q 3 (F_pow ?q x1 2)) ?a) (3 * x1^2 + ?a)"
            unfolding F_add_def F_mul_def F_pow_def
            by (rule cg_trans[OF cg_mod]) (intro cg_intros cg_refl cg_trans[OF cg_mod] cg_mod)
          from F_div_cg[OF pr nd cj ci] show ?thesis using True yy by (simp add: l_def)
        next
          case ne: False
          have nd: "\<not> ?q dvd x2 - x1" using ron_ne[OF Q1 Q2 ne] .
          have cj: "cg ?q (F_sub ?q x2 x1) (x2 - x1)" unfolding F_sub_def by (rule cg_mod)
          have ci: "cg ?q (F_sub ?q y2 y1) (y2 - y1)" unfolding F_sub_def by (rule cg_mod)
          from F_div_cg[OF pr nd cj ci] show ?thesis using ne by (simp add: l_def)
        qed
        then obtain s where s: "(if x1 = x2 \<and> y1 = y2
                   then F_div ?q (F_add ?q (F_mul ?q 3 (F_pow ?q x1 2)) ?a) (F_mul ?q 2 y1)
                   else F_div ?q (F_sub ?q y2 y1) (F_sub ?q x2 x1)) = Inr s" and sl: "cg ?q s l"
          by blast
        define X where "X = F_sub ?q (F_sub ?q (F_pow ?q s 2) x1) x2"
        define Y where "Y = F_sub ?q (F_mul ?q s (F_sub ?q x1 X)) y1"
        have "cg ?q X (l^2 - x1 - x2)" unfolding X_def F_sub_def F_pow_def
          by (rule cg_trans[OF cg_mod])
            (intro cg_intros cg_refl cg_trans[OF cg_mod] cg_trans[OF cg_mod cg_power[OF sl]])
        then have "cg ?q X x3" unfolding x3_def by (rule cg_trans[OF _ cg_mod2])
        moreover have "0 \<le> X" "X < ?q" using q0 by (simp_all add: X_def F_sub_def)
        ultimately have X: "X = x3" using cg_reduced_eq ron_reduced(1,2)[OF on3] by blast
        have "cg ?q Y (l * (x1 - x3) - y1)" unfolding Y_def F_sub_def F_mul_def X
          by (rule cg_trans[OF cg_mod])
            (intro cg_intros cg_refl cg_trans[OF cg_mod] sl cg_mod)
        then have "cg ?q Y y3" unfolding y3_def by (rule cg_trans[OF _ cg_mod2])
        moreover have "0 \<le> Y" "Y < ?q" using q0 by (simp_all add: Y_def F_sub_def)
        ultimately have Y: "Y = y3" using cg_reduced_eq ron_reduced(3,4)[OF on3] by blast
        have "add (pt c P) (pt c Q) = mk_Point c (Some X) (Some Y)"
          using False p1 p2 q0 s
          by (auto simp: add_def is_infinity_def Let_def X_def Y_def)
        then show ?thesis using mk_Point_ron[OF q0 on3] res X Y by simp
      qed
    qed
  qed
qed

lemma neg_rneg:
  assumes q0: "0 < cv_p c" and P: "ron (cv_p c) (cv_a c) (cv_b c) P"
  shows "neg (pt c P) = Inr (pt c (rneg (cv_p c) P))"
proof (cases P)
  case RInf
  then show ?thesis by (simp add: neg_def is_infinity_def infinity_def)
next
  case (RPt x y)
  have on: "ron (cv_p c) (cv_a c) (cv_b c) (RPt x ((- y) mod cv_p c))"
    using rneg_closed[OF q0 P] RPt by (simp add: rneg_def)
  show ?thesis using RPt q0 mk_Point_ron[OF q0 on]
    by (simp add: neg_def is_infinity_def F_neg_def rneg_def)
qed

lemma models_ron:
  assumes pr: "is_prime (cv_p c)" and od: "cv_p c \<noteq> 2"
  shows "models c (ron (cv_p c) (cv_a c) (cv_b c))"
proof -
  have "0 < cv_p c" using pr by (simp add: is_prime_def)
  then show ?thesis unfolding models_def using add_radd[OF pr od] neg_rneg by blast
qed

section \<open>A point with ordinate 0 and the point at infinity\<close>

lemma rgroup_gd2: "rgroup q a (gd2 x)"
  unfolding rgroup_def gd2_def by (auto simp: radd_def rneg_def)

lemma models_gd2:
  assumes v: "valid_point (pt c (RPt x 0))"
  shows "models c (gd2 x)"
proof -
  have mk: "mk_Point c (Some x) (Some 0) = Inr (pt c (RPt x 0))"
    using v by (simp add: valid_point_def)
  then have q0: "cv_p c \<noteq> 0" by (auto simp: mk_Point_def split: if_splits)
  have a: "\<And>P Q. gd2 x P \<Longrightarrow> gd2 x Q \<Longrightarrow>
      add (pt c P) (pt c Q) = Inr (pt c (radd (cv_p c) (cv_a c) P Q))"
    unfolding gd2_def by (auto simp: add_def radd_def is_infinity_def infinity_def)
  have n: "\<And>P. gd2 x P \<Longrightarrow> neg (pt c P) = Inr (pt c (rneg (cv_p c) P))"
    unfolding gd2_def using mk q0
    by (auto simp: neg_def rneg_def is_infinity_def infinity_def F_neg_def)
  show ?thesis unfolding models_def using a n by blast
qed

section \<open>Windowed NAF against double-and-add\<close>

lemma rmul_2: "rmul q a 2 P = radd q a P P" by (simp add: numeral_2_eq_2)

lemma odds_1: "odds c P (Suc 0) = [pt c P]" by (simp add: odds_def)

text \<open>Both paths on a point of a group, for a positive scalar that is no multiple of \<open>n\<close>.\<close>

lemma scalar_mult_rmul:
  assumes G: "rgroup (cv_p c) (cv_a c) gd" and M: "models c gd" and R: "gd R" "R \<noteq> RInf"
    and k: "0 < k" and n: "cv_n c \<noteq> 0" "k mod cv_n c \<noteq> 0"
  shows "scalar_mult k (pt c R) = Inr (pt c (rmul (cv_p c) (cv_a c) (nat k) R))"
proof -
  have "scalar_mult k (pt c R) = scalar_loop k (pt c RInf) (pt c R)"
    using k n R(2) by (subst scalar_mult.simps) simp
  also have "\<dots> = Inr (pt c (radd (cv_p c) (cv_a c) RInf (rmul (cv_p c) (cv_a c) (nat k) R)))"
    using scalar_loop_rmul[OF G M rgroupD(1)[OF G] R(1), of k] k by simp
  finally show ?thesis by simp
qed

lemma wnaf_scalar_mult_rmul:
  assumes G: "rgroup (cv_p c) (cv_a c) gd" and M: "models c gd" and R: "gd R" "R \<noteq> RInf"
    and k: "0 < k" and n: "cv_n c \<noteq> 0" "k mod cv_n c \<noteq> 0"
  shows "wnaf_scalar_mult k (pt c R) 5 = Inr (pt c (rmul (cv_p c) (cv_a c) (nat k) R))"
proof -
  let ?q = "cv_p c" and ?a = "cv_a c"
  have d: "double (pt c R) = Inr (pt c (rmul ?q ?a 2 R))"
    unfolding double_def rmul_2 by (rule modelsD(1)[OF M R(1) R(1)])
  have p: "precomp_loop 7 (pt c (rmul ?q ?a 2 R)) [pt c R] = Inr (odds c R 8)"
    using precomp_loop_rmul[OF G M R(1), of 7 0] by (simp add: odds_1)
  have a: "wnaf_accumulate (odds c R 8) (rev (wnaf_digits 5 k)) (pt c RInf)
      = Inr (pt c (rmul ?q ?a (nat k) R))"
    using wnaf_accumulate_rmul[OF G M R(1), of k] k by simp
  show ?thesis
    using k n R(2) d p a by (subst wnaf_scalar_mult.simps) simp
qed

text \<open>Modulus 2: doubling a point with nonzero ordinate divides by zero on both paths.\<close>

lemma double_mod2:
  assumes "cv_p c = 2" "y \<noteq> 0"
  shows "double (pt c (RPt x y)) = Inl ZeroDivisionError"
  using assms by (simp add: double_def add_def is_infinity_def F_div_def F_inv_def F_mul_def)

lemma both_raise_mod2:
  assumes p: "cv_p c = 2" and y: "y \<noteq> 0"
    and k: "0 < k" and n: "cv_n c \<noteq> 0" "k mod cv_n c \<noteq> 0"
  shows "scalar_mult k (pt c (RPt x y)) = Inl ZeroDivisionError"
    and "wnaf_scalar_mult k (pt c (RPt x y)) 5 = Inl ZeroDivisionError"
proof -
  note d = double_mod2[OF p y, of x]
  have a: "add (infinity c) (pt c (RPt x y)) = Inr (pt c (RPt x y))"
    by (simp add: add_def infinity_def is_infinity_def)
  have "scalar_loop k (infinity c) (pt c (RPt x y)) = Inl ZeroDivisionError"
    using k d a by (subst scalar_loop.simps) simp
  then show "scalar_mult k (pt c (RPt x y)) = Inl ZeroDivisionError"
    using k n by (subst scalar_mult.simps) (simp add: is_infinity_def)
  show "wnaf_scalar_mult k (pt c (RPt x y)) 5 = Inl ZeroDivisionError"
    using k n d by (subst wnaf_scalar_mult.simps) (simp add: is_infinity_def)
qed

text \<open>A valid point is the record of a residue point.\<close>

lemma valid_point_pt:
  assumes "pt_x P = Some x" "pt_y P = Some y"
  shows "P = pt (pt_curve P) (RPt x y)"
  using assms by simp

lemma valid_point_ron:
  assumes v: "valid_point P" and xy: "pt_x P = Some x" "pt_y P = Some y"
    and q0: "0 < cv_p (pt_curve P)" and y: "y \<noteq> 0"
  shows "ron (cv_p (pt_curve P)) (cv_a (pt_curve P)) (cv_b (pt_curve P)) (RPt x y)"
proof -
  let ?q = "cv_p (pt_curve P)"
  note f = valid_point_on_curve[OF v xy]
  have "0 \<le> x mod ?q" "x mod ?q < ?q" "0 \<le> y mod ?q" "y mod ?q < ?q" using q0 by simp_all
  then have "0 \<le> x" "x < ?q" "0 \<le> y" "y < ?q" using f(2,3) by simp_all
  then show ?thesis using f(1) y by (simp add: ron_def on_curve_def)
qed

lemma wnaf_pos:
  assumes pr: "is_prime (cv_p (pt_curve P))" and v: "valid_point P" and ni: "\<not> is_infinity P"
    and k: "0 < k" and n: "cv_n (pt_curve P) \<noteq> 0" "k mod cv_n (pt_curve P) \<noteq> 0"
  shows "wnaf_scalar_mult k P 5 = scalar_mult k P"
proof -
  define c where "c = pt_curve P"
  from v ni obtain x y where xy: "pt_x P = Some x" "pt_y P = Some y" by (rule valid_point_cases)
  have P: "P = pt c (RPt x y)" unfolding c_def by (rule valid_point_pt[OF xy])
  have q0: "0 < cv_p c" using pr by (simp add: is_prime_def c_def)
  note n' = n[folded c_def]
  consider (zero) "y = 0" | (two) "y \<noteq> 0" "cv_p c = 2" | (odd) "y \<noteq> 0" "cv_p c \<noteq> 2" by blast
  then show ?thesis
  proof cases
    case zero
    have M: "models c (gd2 x)" using v unfolding P zero by (rule models_gd2)
    have R: "gd2 x (RPt x y)" "RPt x y \<noteq> RInf" using zero by (simp_all add: gd2_def)
    show ?thesis unfolding P
      using wnaf_scalar_mult_rmul[OF rgroup_gd2 M R k n'] scalar_mult_rmul[OF rgroup_gd2 M R k n']
      by simp
  next
    case two
    show ?thesis unfolding P using both_raise_mod2[OF two(2,1) k n'] by simp
  next
    case odd
    have pr': "is_prime (cv_p c)" using pr by (simp add: c_def)
    have ok: "ec_ok (cv_p c) (cv_a c) (cv_b c)" using pr' odd(2) by (simp add: ec_ok_def)
    have R: "ron (cv_p c) (cv_a c) (cv_b c) (RPt x y)" "RPt x y \<noteq> RInf"
      using valid_point_ron[OF v xy _ odd(1)] q0 by (simp_all add: c_def)
    note G = rgroup_ron[OF ok] and M = models_ron[OF pr' odd(2)]
    show ?thesis unfolding P
      using wnaf_scalar_mult_rmul[OF G M R k n'] scalar_mult_rmul[OF G M R k n'] by simp
  qed
qed

text \<open>
  C1, amended: on a curve whose modulus \<open>p\<close> is prime, for every integer \<open>k\<close> and every
  valid point \<open>P\<close> (infinity, negative and oversized \<open>k\<close> included),
  \<^verbatim>\<open>wnaf_scalar_mult(k, P, 5)\<close> and \<^verbatim>\<open>scalar_mult(k, P)\<close> have the same outcome: the same
  point, or, for \<open>p = 2\<close>, the same exception.
\<close>

theorem wnaf_equals_double_and_add:
  assumes pr: "is_prime (cv_p (pt_curve P))" and v: "valid_point P"
  shows "wnaf_scalar_mult k P 5 = scalar_mult k P"
proof -
  let ?n = "cv_n (pt_curve P)"
  consider (n0) "?n = 0" | (short) "?n \<noteq> 0" "k mod ?n = 0 \<or> is_infinity P"
    | (pos) "?n \<noteq> 0" "k mod ?n \<noteq> 0" "\<not> is_infinity P" "0 < k"
    | (neg) "?n \<noteq> 0" "k mod ?n \<noteq> 0" "\<not> is_infinity P" "k < 0"
  proof (cases "k = 0")
    case True then show ?thesis using that(1,2) by (cases "?n = 0") auto
  next
    case False then show ?thesis using that by (cases "0 < k") fastforce+
  qed
  then show ?thesis
  proof cases
    case n0
    then show ?thesis by (subst wnaf_scalar_mult.simps, subst scalar_mult.simps) simp
  next
    case short
    then show ?thesis by (subst wnaf_scalar_mult.simps, subst scalar_mult.simps) auto
  next
    case pos
    from wnaf_pos[OF pr v pos(3,4,1,2)] show ?thesis .
  next
    case neg
    have q0: "cv_p (pt_curve P) \<noteq> 0" using pr by (auto simp: is_prime_def)
    from neg_closed[OF v q0] obtain P' where P': "neg P = Inr P'" "valid_point P'"
      "pt_curve P' = pt_curve P" "is_infinity P' \<longleftrightarrow> is_infinity P" by blast
    have m: "(- k) mod ?n \<noteq> 0" using neg(2) by (simp add: dvd_eq_mod_eq_0[symmetric])
    have "wnaf_scalar_mult (- k) P' 5 = scalar_mult (- k) P'"
      using wnaf_pos[of P' "- k"] pr v P' neg m by simp
    moreover have "wnaf_scalar_mult k P 5 = wnaf_scalar_mult (- k) P' 5"
      using neg P'(1) by (subst wnaf_scalar_mult.simps) simp
    moreover have "scalar_mult k P = scalar_mult (- k) P'"
      using neg P'(1) by (subst scalar_mult.simps) simp
    ultimately show ?thesis by simp
  qed
qed

text \<open>
  C1 as stated fails on a modulus that is not prime: over the integers modulo 4 the point
  \<open>(1, 1)\<close> lies on \<open>y\<^sup>2 = x\<^sup>3 + x + 3\<close>; for \<open>k = 2\<close> the last doubling of the
  double-and-add loop leaves the curve and raises, while the windowed path returns \<open>(2, 3)\<close>.
\<close>

theorem wnaf_differs_composite_modulus:
  "valid_point (mod4_pt 1 1)
   \<and> scalar_mult 2 (mod4_pt 1 1) = Inl ValueError
   \<and> wnaf_scalar_mult 2 (mod4_pt 1 1) 5 = Inr (mod4_pt 2 3)"
  by code_simp

text \<open>The amended claim at \<open>k = -11\<close> on the curve of order 7.\<close>

theorem wnaf_equals_double_and_add_witness:
  "is_prime (cv_p (pt_curve (toy13_pt 8 5))) \<and> valid_point (toy13_pt 8 5)
   \<and> wnaf_scalar_mult (- 11) (toy13_pt 8 5) 5 = scalar_mult (- 11) (toy13_pt 8 5)
   \<and> scalar_mult (- 11) (toy13_pt 8 5) = Inr (toy13_pt 7 8)"
proof -
  have h1: "is_prime (cv_p (pt_curve (toy13_pt 8 5)))" by code_simp
  have h2: "valid_point (toy13_pt 8 5)" by code_simp
  have h3: "scalar_mult (- 11) (toy13_pt 8 5) = Inr (toy13_pt 7 8)" by code_simp
  show ?thesis using h1 h2 h3 wnaf_equals_double_and_add[OF h1 h2, of "- 11"] by simp
qed

end
